theory Spec2Isabelle
  imports Main "HOL-Library.AList" "HOL-Library.Multiset" "HOL-Library.Sublist"
begin

section \<open>JavaScript values used by the two scripts\<close>

text \<open>
  Strings are lists of code units; only code units below 256 are represented, which
  covers every literal the scripts compare against. \<open>String.prototype.trim\<close> removes
  white space and line terminators from both ends; on this alphabet these are the code
  units 9 to 13, 32 and 160.
\<close>

definition js_ws :: "char \<Rightarrow> bool" where
  "js_ws c = (of_char c \<in> {9, 10, 11, 12, 13, 32, 160 :: nat})"

definition trim :: "string \<Rightarrow> string" where
  "trim s = rev (dropWhile js_ws (rev (dropWhile js_ws s)))"

text \<open>
  A template literal renders \<open>undefined\<close> as the nine letters of that word; an attribute or
  field that is absent is \<open>None\<close> here.
\<close>

definition js_str :: "string option \<Rightarrow> string" where
  "js_str v = (case v of None \<Rightarrow> ''undefined'' | Some s \<Rightarrow> s)"

text \<open>
  Both scripts keep their tables in object literals \<open>{}\<close>. Reading \<open>obj[key]\<close> finds an
  own property first and otherwise whatever \<open>Object.prototype\<close> carries under that
  name, which is a function (or, for \<open>__proto__\<close>, the prototype itself): a truthy
  value that is no entry of the table.
\<close>

definition object_prototype_keys :: "string list" where
  "object_prototype_keys =
     [''constructor'', ''hasOwnProperty'', ''isPrototypeOf'', ''propertyIsEnumerable'',
      ''toLocaleString'', ''toString'', ''valueOf'', ''__proto__'',
      ''__defineGetter__'', ''__defineSetter__'', ''__lookupGetter__'', ''__lookupSetter__'']"

datatype 'a js_prop = Own 'a | Inherited | Undefined

definition js_get :: "(string \<times> 'a) list \<Rightarrow> string \<Rightarrow> 'a js_prop" where
  "js_get obj key =
     (case map_of obj key of
        Some v \<Rightarrow> Own v
      | None \<Rightarrow> if key \<in> set object_prototype_keys then Inherited else Undefined)"

datatype error = SyntaxError | TypeError | IOError

section \<open>parser.js: the path pattern\<close>

text \<open>
  The regular expression \<open>/volume_(\d+)\/section_(\d+)\/page_(\d+)\.json$/\<close> is tried at
  every start position from the left. Each \<open>\d+\<close> is followed by a character that is
  no digit, so the greedy match of the digits is the only one that can succeed and the
  matcher never backtracks into a group.

  \<open>Number\<close> reads a group in base ten and gives the double nearest to that integer, with
  ties going to the even significand: an integer of at most 53 bits is kept, a longer one
  keeps its 53 leading bits, rounded, and what reaches \<open>2\<^sup>1\<^sup>0\<^sup>2\<^sup>4\<close> becomes \<open>Infinity\<close>.
  Node rounds a string of any length in this way; the language standard also lets an
  implementation look at the first twenty significant digits only, which gives the same
  double for every string of at most twenty digits.
  The doubles that occur are integers and are written as such; \<open>Infinity\<close> is written as
  \<open>2\<^sup>1\<^sup>0\<^sup>2\<^sup>4\<close>, above every other double, which keeps what the script uses of it:
  comparison, equality, and its spelling as a property key.
\<close>

definition is_digit :: "char \<Rightarrow> bool" where
  "is_digit c = (c \<in> set ''0123456789'')"

definition digit_val :: "char \<Rightarrow> nat" where
  "digit_val c = of_char c - 48"

definition decimal :: "string \<Rightarrow> nat" where
  "decimal ds = foldl (\<lambda>a c. 10 * a + digit_val c) 0 ds"

fun bitlen :: "nat \<Rightarrow> nat" where
  "bitlen n = (if n = 0 then 0 else Suc (bitlen (n div 2)))"

declare bitlen.simps [simp del]

definition Infinity :: nat where
  "Infinity = 2 ^ 1024"

definition to_double :: "nat \<Rightarrow> nat" where
  "to_double n =
     (if bitlen n \<le> 53 then n
      else
        let e = bitlen n - 53;
            q = n div 2 ^ e;
            r = n mod 2 ^ e;
            significand = (if 2 ^ e < 2 * r \<or> (2 * r = 2 ^ e \<and> odd q) then q + 1 else q)
        in min (significand * 2 ^ e) Infinity)"

definition Number :: "string \<Rightarrow> nat" where
  "Number ds = to_double (decimal ds)"

fun literal :: "string \<Rightarrow> string \<Rightarrow> string option" where
  "literal [] s = Some s"
| "literal (c # cs) [] = None"
| "literal (c # cs) (d # ds) = (if c = d then literal cs ds else None)"

definition digits :: "string \<Rightarrow> (string \<times> string) option" where
  "digits s =
     (let ds = takeWhile is_digit s
      in if ds = [] then None else Some (ds, dropWhile is_digit s))"

definition match_at :: "string \<Rightarrow> (nat \<times> nat \<times> nat) option" where
  "match_at s =
     (case literal ''volume_'' s of None \<Rightarrow> None | Some s1 \<Rightarrow>
     (case digits s1 of None \<Rightarrow> None | Some (volume, s2) \<Rightarrow>
     (case literal ''/section_'' s2 of None \<Rightarrow> None | Some s3 \<Rightarrow>
     (case digits s3 of None \<Rightarrow> None | Some (section, s4) \<Rightarrow>
     (case literal ''/page_'' s4 of None \<Rightarrow> None | Some s5 \<Rightarrow>
     (case digits s5 of None \<Rightarrow> None | Some (page, s6) \<Rightarrow>
        if s6 = ''.json'' then Some (Number volume, Number section, Number page)
        else None))))))"

fun path_match :: "string \<Rightarrow> (nat \<times> nat \<times> nat) option" where
  "path_match [] = None"
| "path_match (c # cs) =
     (case match_at (c # cs) of Some m \<Rightarrow> Some m | None \<Rightarrow> path_match cs)"

section \<open>parser.js: grouping and ordering the discovered paths\<close>

text \<open>
  \<open>groupedFiles\<close> is an object of objects of arrays, keyed by volume and then by
  section. The keys are listed and sorted numerically before use, so the order in which
  an object enumerates its keys does not show in \<open>sortedPaths\<close>. \<open>Array.prototype.sort\<close>
  is stable, as \<open>sort_key\<close> is. The difference of two pages that are both \<open>Infinity\<close> is
  \<open>NaN\<close>, which \<open>sort\<close> takes for equal, as \<open>sort_key\<close> does.
\<close>

type_synonym page_entry = "string \<times> nat"
type_synonym grouped_files = "(nat \<times> (nat \<times> page_entry list) list) list"

definition group_file :: "grouped_files \<Rightarrow> string \<Rightarrow> grouped_files" where
  "group_file acc filePath =
     (case path_match filePath of
        None \<Rightarrow> acc
      | Some (volume, section, page) \<Rightarrow>
          let sections = (case map_of acc volume of None \<Rightarrow> [] | Some ss \<Rightarrow> ss);
              pages = (case map_of sections section of None \<Rightarrow> [] | Some ps \<Rightarrow> ps)
          in AList.update volume
               (AList.update section (pages @ [(filePath, page)]) sections) acc)"

definition groupedFiles :: "string list \<Rightarrow> grouped_files" where
  "groupedFiles filePaths = foldl group_file [] filePaths"

definition sorted_keys :: "(nat \<times> 'a) list \<Rightarrow> nat list" where
  "sorted_keys obj = sort (map fst obj)"

definition section_paths :: "(nat \<times> page_entry list) list \<Rightarrow> nat \<Rightarrow> string list" where
  "section_paths sections section =
     (case map_of sections section of
        None \<Rightarrow> []
      | Some pages \<Rightarrow> map fst (sort_key snd pages))"

definition volume_paths :: "grouped_files \<Rightarrow> nat \<Rightarrow> string list" where
  "volume_paths grouped volume =
     (case map_of grouped volume of
        None \<Rightarrow> []
      | Some sections \<Rightarrow> concat (map (section_paths sections) (sorted_keys sections)))"

definition sortedPaths :: "string list \<Rightarrow> string list" where
  "sortedPaths filePaths =
     (let grouped = groupedFiles filePaths
      in concat (map (volume_paths grouped) (sorted_keys grouped)))"

section \<open>parser.js: what the markup parser hands to the extraction\<close>

text \<open>
  The markup of a fragment is parsed by the cheerio library. The extraction sees only the
  results of its queries, which are the fields below; the text fields hold what \<open>.text()\<close>
  returns, before \<open>.trim()\<close>.
\<close>

record hadith_element =
  revayatindex :: "string option"  \<comment> \<open>\<open>$hadith.attr('revayatindex')\<close>\<close>
  closest_p_id :: "string option"  \<comment> \<open>\<open>$hadith.closest('p').attr('id')\<close>\<close>
  content_text :: string  \<comment> \<open>text of the clone without \<open>format.sanadHadith\<close> and \<open>lfootnote\<close>\<close>
  maasoom_text :: string  \<comment> \<open>text of \<open>format.maasoom\<close> inside \<open>format.sanadHadith\<close>\<close>
  sanad_text :: string  \<comment> \<open>text of \<open>format.sanadHadith\<close>\<close>

record parag =
  heading_text :: string  \<comment> \<open>\<open>$('heading').text()\<close>\<close>
  hadith_elements :: "hadith_element list"  \<comment> \<open>\<open>$('format.hadith')\<close>, in document order\<close>
  p_match :: "(string \<times> string) option"
    \<comment> \<open>the two groups of the fallback pattern on \<open>$('p').text()\<close>, if it matches\<close>
  paragraphId :: "string option"  \<comment> \<open>\<open>parag.paragraphId\<close>, as a template literal prints it\<close>

text \<open>
  What reading and parsing one file gives. \<open>JSON.parse\<close> throws on text that is no JSON;
  \<open>jsonData.data[0].paragList\<close> throws when \<open>data\<close> or \<open>data[0]\<close> is missing, and is
  falsy when only \<open>paragList\<close> is. The files were listed just before, and reading them is
  taken to succeed.
\<close>

datatype page_json =
    Unparsable
  | NoData
  | NoFirstElement
  | NoParagList
  | ParagList "parag list"

type_synonym files = "string \<Rightarrow> page_json"

record hadith =
  vol :: nat
  sec :: nat
  pages :: "nat list"
  id' :: string
  title :: string
  ghael :: string
  sanad :: string
  parts :: "string list"

type_synonym hadiths = "(string \<times> hadith) list"

record parser_state =
  hadithsById :: hadiths
  currentTitle :: string

text \<open>A loop whose body may throw: the first error ends it and the state is lost.\<close>

fun for_each :: "('s \<Rightarrow> 'a \<Rightarrow> error + 's) \<Rightarrow> 's \<Rightarrow> 'a list \<Rightarrow> error + 's" where
  "for_each body s [] = Inr s"
| "for_each body s (x # xs) =
     (case body s x of Inl e \<Rightarrow> Inl e | Inr s' \<Rightarrow> for_each body s' xs)"

section \<open>parser.js: primary extraction\<close>

definition gen_id :: "string \<Rightarrow> string option \<Rightarrow> string" where
  "gen_id filePath pid = ''gen_'' @ filePath @ ''_'' @ js_str pid"

text \<open>\<open>!revayatIndex\<close> holds for an absent attribute and for an empty one.\<close>

definition revayatIndex :: "string \<Rightarrow> hadith_element \<Rightarrow> string" where
  "revayatIndex filePath el =
     (case revayatindex el of
        None \<Rightarrow> gen_id filePath (closest_p_id el)
      | Some r \<Rightarrow> if r = [] then gen_id filePath (closest_p_id el) else r)"

definition merge_hadith :: "nat \<Rightarrow> string \<Rightarrow> hadith \<Rightarrow> hadith" where
  "merge_hadith page hadithContent existingHadith =
     existingHadith
       \<lparr> pages := (if page \<in> set (pages existingHadith) then pages existingHadith
                   else pages existingHadith @ [page]),
         parts := (if hadithContent \<noteq> [] \<and> hadithContent \<notin> set (parts existingHadith)
                   then parts existingHadith @ [hadithContent]
                   else parts existingHadith) \<rparr>"

definition new_hadith ::
  "nat \<Rightarrow> nat \<Rightarrow> nat \<Rightarrow> string \<Rightarrow> string \<Rightarrow> string \<Rightarrow> hadith_element \<Rightarrow> hadith" where
  "new_hadith volume section page key current hadithContent el =
     \<lparr> vol = volume, sec = section, pages = [page], id' = key, title = current,
       ghael = trim (maasoom_text el), sanad = trim (sanad_text el),
       parts = (if hadithContent \<noteq> [] then [hadithContent] else []) \<rparr>"

text \<open>
  The callback of \<open>$('format.hadith').each\<close>. An inherited member of \<open>Object.prototype\<close>
  is truthy and has no \<open>pages\<close>, so \<open>existingHadith.pages.includes\<close> throws.
\<close>

definition each_hadith ::
  "string \<Rightarrow> nat \<Rightarrow> nat \<Rightarrow> nat \<Rightarrow> string \<Rightarrow> hadiths \<Rightarrow> hadith_element \<Rightarrow> error + hadiths" where
  "each_hadith filePath volume section page current byId el =
     (let key = revayatIndex filePath el;
          hadithContent = trim (content_text el)
      in case js_get byId key of
           Own existingHadith \<Rightarrow>
             Inr (AList.update key (merge_hadith page hadithContent existingHadith) byId)
         | Inherited \<Rightarrow> Inl TypeError
         | Undefined \<Rightarrow>
             Inr (AList.update key
                    (new_hadith volume section page key current hadithContent el)
                    byId))"

definition primary_parag ::
  "string \<Rightarrow> nat \<Rightarrow> nat \<Rightarrow> nat \<Rightarrow> parser_state \<Rightarrow> parag \<Rightarrow> error + parser_state" where
  "primary_parag filePath volume section page st parag =
     (let heading = trim (heading_text parag);
          current = (if heading \<noteq> [] then heading else currentTitle st)
      in case for_each (each_hadith filePath volume section page current)
                (hadithsById st) (hadith_elements parag) of
           Inl e \<Rightarrow> Inl e
         | Inr byId \<Rightarrow> Inr \<lparr> hadithsById = byId, currentTitle = current \<rparr>)"

definition primary_page :: "files \<Rightarrow> parser_state \<Rightarrow> string \<Rightarrow> error + parser_state" where
  "primary_page fs st filePath =
     (case fs filePath of
        Unparsable \<Rightarrow> Inl SyntaxError
      | NoData \<Rightarrow> Inl TypeError
      | NoFirstElement \<Rightarrow> Inl TypeError
      | NoParagList \<Rightarrow> Inr st
      | ParagList paragList \<Rightarrow>
          (case path_match filePath of
             None \<Rightarrow> Inr st
           | Some (volume, section, page) \<Rightarrow>
               for_each (primary_parag filePath volume section page) st paragList))"

definition initial_state :: parser_state where
  "initial_state = \<lparr> hadithsById = [], currentTitle = ''Untitled'' \<rparr>"

definition primary :: "files \<Rightarrow> string list \<Rightarrow> error + parser_state" where
  "primary fs paths = for_each (primary_page fs) initial_state paths"

section \<open>parser.js: fallback extraction and the driver\<close>

definition fallback_id :: "parag \<Rightarrow> string" where
  "fallback_id parag = ''fallback_'' @ js_str (paragraphId parag)"

definition fallback_parag ::
  "nat \<Rightarrow> nat \<Rightarrow> nat \<Rightarrow> string \<Rightarrow> hadiths \<Rightarrow> parag \<Rightarrow> hadiths" where
  "fallback_parag volume section page current byId parag =
     (case p_match parag of
        None \<Rightarrow> byId
      | Some (g, content) \<Rightarrow>
          let key = fallback_id parag
          in (case js_get byId key of
                Undefined \<Rightarrow>
                  AList.update key
                    \<lparr> vol = volume, sec = section, pages = [page], id' = key, title = current,
                      ghael = trim g, sanad = [], parts = [trim content] \<rparr>
                    byId
              | _ \<Rightarrow> byId))"

definition fallback_page :: "files \<Rightarrow> parser_state \<Rightarrow> string \<Rightarrow> error + parser_state" where
  "fallback_page fs st filePath =
     (case fs filePath of
        Unparsable \<Rightarrow> Inl SyntaxError
      | NoData \<Rightarrow> Inl TypeError
      | NoFirstElement \<Rightarrow> Inl TypeError
      | NoParagList \<Rightarrow> Inr st
      | ParagList paragList \<Rightarrow>
          (case path_match filePath of
             None \<Rightarrow> Inr st
           | Some (volume, section, page) \<Rightarrow>
               Inr (st \<lparr> hadithsById :=
                      foldl (fallback_parag volume section page (currentTitle st))
                        (hadithsById st) paragList \<rparr>)))"

definition fallback :: "files \<Rightarrow> string list \<Rightarrow> parser_state \<Rightarrow> error + parser_state" where
  "fallback fs paths st = for_each (fallback_page fs) st paths"

text \<open>
  The driver up to the point where \<open>hadithsById\<close> is complete. An error is what
  \<open>main().catch\<close> receives before it ends the process with status 1; nothing is written
  then. The last step, which joins the \<open>parts\<close> of each record into its \<open>content\<close> and
  writes \<open>hadiths.json\<close>, is not part of the model.
\<close>

definition main :: "files \<Rightarrow> string list \<Rightarrow> error + parser_state" where
  "main fs filePaths =
     (let paths = sortedPaths filePaths
      in case primary fs paths of
           Inl e \<Rightarrow> Inl e
         | Inr st \<Rightarrow>
             if length (map fst (hadithsById st)) = 0 then fallback fs paths st
             else Inr st)"

section \<open>translate.js: one text, with retries\<close>

text \<open>
  The text-generation service is a parameter: what the request numbered \<open>n\<close> since the
  start of the process, sent with the key at the given index, does for a text.
  The request asks for a JSON object with a string field \<open>translation\<close>; an answer of that
  shape is a \<open>Translation\<close>, and everything that makes the \<open>try\<close> block throw is an
  \<open>ApiError\<close> with the \<open>status\<close> of the error, if it has one. Creating the client
  object, before the \<open>try\<close>, sends nothing and is taken to succeed.
\<close>

datatype api_outcome = Translation string | ApiError "nat option"

type_synonym api = "nat \<Rightarrow> nat \<Rightarrow> bool \<Rightarrow> string \<Rightarrow> api_outcome"

text \<open>The variables of the module, and a count of the requests sent so far.\<close>

record translator =
  currentApiKeyIndex :: nat
  consecutiveErrors :: nat
  fullCycleCompleted :: bool
  titleCache :: "(string \<times> string) list"
  requests :: nat

definition initial_translator :: translator where
  "initial_translator =
     \<lparr> currentApiKeyIndex = 0, consecutiveErrors = 0, fullCycleCompleted = False,
       titleCache = [], requests = 0 \<rparr>"

text \<open>
  The \<open>catch\<close> block. The pause of eight seconds before \<open>consecutiveErrors\<close> is reset takes
  time and changes nothing else.
\<close>

definition on_error :: "string list \<Rightarrow> nat option \<Rightarrow> translator \<Rightarrow> translator" where
  "on_error apiKeys status st =
     (let errors = (if status = Some 429 \<or> status = Some 503 then consecutiveErrors st + 1
                    else 0);
          next_index = (currentApiKeyIndex st + 1) mod length apiKeys;
          cycled = (fullCycleCompleted st \<or> next_index = 0)
      in st \<lparr> currentApiKeyIndex := next_index,
              fullCycleCompleted := cycled,
              consecutiveErrors := (if cycled \<and> 2 \<le> errors then 0 else errors),
              requests := requests st + 1 \<rparr>)"

definition on_success :: "bool \<Rightarrow> string \<Rightarrow> string \<Rightarrow> translator \<Rightarrow> translator" where
  "on_success isTitle text translated st =
     st \<lparr> consecutiveErrors := 0,
          titleCache := (if isTitle then AList.update text translated (titleCache st)
                         else titleCache st),
          requests := requests st + 1 \<rparr>"

function retry_loop ::
  "api \<Rightarrow> string list \<Rightarrow> bool \<Rightarrow> string \<Rightarrow> nat \<Rightarrow> translator \<Rightarrow> string \<times> translator" where
  "retry_loop service apiKeys isTitle text attempt st =
     (if attempt < length apiKeys * 3 then
        (case service (requests st) (currentApiKeyIndex st) isTitle text of
           Translation translated \<Rightarrow> (translated, on_success isTitle text translated st)
         | ApiError status \<Rightarrow>
             retry_loop service apiKeys isTitle text (attempt + 1) (on_error apiKeys status st))
      else (text, st))"
  by pat_completeness auto
termination
  by (relation "measure (\<lambda>(service, apiKeys, isTitle, text, attempt, st).
        length apiKeys * 3 - attempt)") auto

declare retry_loop.simps [simp del]

text \<open>
  What \<open>translateText\<close> returns: a string, or a value that is no string, which is what a
  title naming a member of \<open>Object.prototype\<close> finds in \<open>titleCache\<close>.
\<close>

datatype translated = Text string | NotText

definition translateText ::
  "api \<Rightarrow> string list \<Rightarrow> string \<Rightarrow> bool \<Rightarrow> translator \<Rightarrow> translated \<times> translator" where
  "translateText service apiKeys text isTitle st =
     (let retry = (case retry_loop service apiKeys isTitle text 0 st of
                     (result, st') \<Rightarrow> (Text result, st'))
      in if isTitle then
           (case js_get (titleCache st) text of
              Own cached \<Rightarrow> if cached \<noteq> [] then (Text cached, st) else retry
            | Inherited \<Rightarrow> (NotText, st)
            | Undefined \<Rightarrow> retry)
         else retry)"

section \<open>translate.js: the driver\<close>

text \<open>
  Of a record of \<open>hadiths.json\<close> the driver reads \<open>id\<close>, \<open>title\<close> and \<open>content\<close>. The
  object spread \<open>{...hadith, title_fa, content_fa}\<close> keeps the whole record, which is the
  field \<open>source\<close> here.
\<close>

record source_hadith =
  src_id :: string
  src_title :: string
  src_content :: string

record translated_hadith =
  source :: source_hadith
  title_fa :: string
  content_fa :: string

text \<open>
  What the run does that can be seen from outside: the two lines it logs for a record and
  the contents it writes to \<open>hadiths_translated.json\<close>, each write replacing the file.
\<close>

datatype event =
    Translating string
  | WriteFile "translated_hadith list"
  | Saved string

record run =
  translator_state :: translator
  translatedHadiths :: "translated_hadith list"
  events :: "event list"
  thrown :: "error option"

text \<open>
  The \<open>for\<close> loop over \<open>hadiths\<close>. \<open>translatedIds\<close> is computed once, before the loop.
  \<open>.trim()\<close> on a value that is no string throws, and the \<open>try\<close> around the loop
  catches it: the loop ends there.
\<close>

fun translate_loop ::
  "api \<Rightarrow> string list \<Rightarrow> string list \<Rightarrow> run \<Rightarrow> source_hadith list \<Rightarrow> run" where
  "translate_loop service apiKeys translatedIds r [] = r"
| "translate_loop service apiKeys translatedIds r (hadith # rest) =
     (if src_id hadith \<in> set translatedIds then
        translate_loop service apiKeys translatedIds r rest
      else if trim (src_content hadith) = [] then
        translate_loop service apiKeys translatedIds r rest
      else
        (case translateText service apiKeys (src_title hadith) True (translator_state r) of
           (translatedTitle, st1) \<Rightarrow>
        (case translateText service apiKeys (src_content hadith) False st1 of
           (translatedContent, st2) \<Rightarrow>
        (case (translatedTitle, translatedContent) of
           (Text t, Text c) \<Rightarrow>
             let newHadith = \<lparr> source = hadith, title_fa = trim t, content_fa = trim c \<rparr>;
                 all = translatedHadiths r @ [newHadith]
             in translate_loop service apiKeys translatedIds
                  (r \<lparr> translator_state := st2, translatedHadiths := all,
                       events := events r @
                         [Translating (src_id hadith), WriteFile all, Saved (src_id hadith)] \<rparr>)
                  rest
         | _ \<Rightarrow>
             r \<lparr> translator_state := st2,
                 events := events r @ [Translating (src_id hadith)],
                 thrown := Some TypeError \<rparr>))))"

text \<open>
  Reading \<open>hadiths_translated.json\<close> at the start: the file may be missing (\<open>ENOENT\<close>),
  fail to be read or parsed, which is thrown again, or hold the records of an earlier run.
  \<open>fixTranslatedFile\<close>, which rewrites the file after the loop, is not part of the model.
\<close>

datatype existing = NoFile | Unreadable error | Existing "translated_hadith list"

definition pass_through :: "source_hadith \<Rightarrow> translated_hadith" where
  "pass_through hadith =
     \<lparr> source = hadith \<lparr> src_title := [], src_content := [] \<rparr>,
       title_fa = src_title hadith, content_fa = src_content hadith \<rparr>"

definition translate_main ::
  "api \<Rightarrow> string list \<Rightarrow> bool \<Rightarrow> existing \<Rightarrow> source_hadith list \<Rightarrow> run" where
  "translate_main service apiKeys doTranslate file hadiths =
     (let start = \<lparr> translator_state = initial_translator, translatedHadiths = [],
                    events = [], thrown = None \<rparr>
      in if \<not> doTranslate then
           start \<lparr> events := [WriteFile (map pass_through hadiths)] \<rparr>
         else
           (case file of
              Unreadable e \<Rightarrow> start \<lparr> thrown := Some e \<rparr>
            | NoFile \<Rightarrow> translate_loop service apiKeys [] start hadiths
            | Existing loaded \<Rightarrow>
                translate_loop service apiKeys (map (src_id \<circ> source) loaded)
                  (start \<lparr> translatedHadiths := loaded \<rparr>) hadiths))"

section \<open>Notions used to state the properties\<close>

text \<open>
  The pattern of the specification, \<open>volume_V/section_S/page_P.json\<close> at the end of a
  path, with \<open>V\<close>, \<open>S\<close> and \<open>P\<close> non-empty strings of digits; \<open>matches_pattern\<close> pairs
  a path with the three numbers as \<open>Number\<close> gives them.
\<close>

definition digit_string :: "string \<Rightarrow> bool" where
  "digit_string ds \<longleftrightarrow> ds \<noteq> [] \<and> list_all is_digit ds"

definition pattern_suffix :: "string \<Rightarrow> string \<Rightarrow> string \<Rightarrow> string" where
  "pattern_suffix d1 d2 d3 = ''volume_'' @ d1 @ ''/section_'' @ d2 @ ''/page_'' @ d3 @ ''.json''"

definition matches_pattern :: "string \<Rightarrow> nat \<times> nat \<times> nat \<Rightarrow> bool" where
  "matches_pattern p m \<longleftrightarrow>
     (\<exists>pre d1 d2 d3.
        p = pre @ pattern_suffix d1 d2 d3 \<and>
        digit_string d1 \<and> digit_string d2 \<and> digit_string d3 \<and>
        m = (Number d1, Number d2, Number d3))"

text \<open>
  The order of the specification on \<open>(volume, section, page)\<close>: by volume, then by section,
  then by page.
\<close>

definition triple_le :: "nat \<times> nat \<times> nat \<Rightarrow> nat \<times> nat \<times> nat \<Rightarrow> bool" where
  "triple_le a b =
     (case a of (v, s, p) \<Rightarrow>
       (case b of (v', s', p') \<Rightarrow>
          v < v' \<or> (v = v' \<and> (s < s' \<or> (s = s' \<and> p \<le> p')))))"

definition path_le :: "string \<Rightarrow> string \<Rightarrow> bool" where
  "path_le p q =
     (case path_match p of None \<Rightarrow> False | Some a \<Rightarrow>
       (case path_match q of None \<Rightarrow> False | Some b \<Rightarrow> triple_le a b))"

text \<open>
  The integer that a string of digits denotes, by the place of each digit, and the integer
  triple \<open>(volume, section, page)\<close> of a path that ends in the pattern. Neither refers to
  what the script computes.
\<close>

definition decimal_value :: "string \<Rightarrow> nat" where
  "decimal_value ds = (\<Sum>i<length ds. digit_val (ds ! i) * 10 ^ (length ds - Suc i))"

definition exact_triple :: "string \<Rightarrow> nat \<times> nat \<times> nat \<Rightarrow> bool" where
  "exact_triple p t \<longleftrightarrow>
     (\<exists>pre d1 d2 d3.
        p = pre @ pattern_suffix d1 d2 d3 \<and>
        digit_string d1 \<and> digit_string d2 \<and> digit_string d3 \<and>
        t = (decimal_value d1, decimal_value d2, decimal_value d3))"

text \<open>
  The order of the specification on paths, by their integer triples, and the same order
  on the triples rounded to doubles. A path is in the exact range when its three numbers
  are below \<open>2\<^sup>5\<^sup>3\<close>.
\<close>

definition exact_path_le :: "string \<Rightarrow> string \<Rightarrow> bool" where
  "exact_path_le p q \<longleftrightarrow> (\<exists>a b. exact_triple p a \<and> exact_triple q b \<and> triple_le a b)"

definition as_read :: "nat \<times> nat \<times> nat \<Rightarrow> nat \<times> nat \<times> nat" where
  "as_read t = (case t of (v, s, p) \<Rightarrow> (to_double v, to_double s, to_double p))"

definition read_path_le :: "string \<Rightarrow> string \<Rightarrow> bool" where
  "read_path_le p q \<longleftrightarrow>
     (\<exists>a b. exact_triple p a \<and> exact_triple q b \<and> triple_le (as_read a) (as_read b))"

definition below_2_53 :: "nat \<times> nat \<times> nat \<Rightarrow> bool" where
  "below_2_53 t = (case t of (v, s, p) \<Rightarrow> v < 2 ^ 53 \<and> s < 2 ^ 53 \<and> p < 2 ^ 53)"

definition in_exact_range :: "string \<Rightarrow> bool" where
  "in_exact_range p \<longleftrightarrow> (\<forall>t. exact_triple p t \<longrightarrow> below_2_53 t)"

text \<open>What holds of \<open>groupedFiles\<close> while it is built.\<close>

definition well_grouped :: "grouped_files \<Rightarrow> bool" where
  "well_grouped g \<longleftrightarrow>
     distinct (map fst g) \<and>
     (\<forall>v ss. (v, ss) \<in> set g \<longrightarrow> distinct (map fst ss) \<and>
        (\<forall>s pgs f pg. (s, pgs) \<in> set ss \<longrightarrow> (f, pg) \<in> set pgs \<longrightarrow>
           path_match f = Some (v, s, pg)))"

definition sections_mset :: "(nat \<times> page_entry list) list \<Rightarrow> string multiset" where
  "sections_mset ss = sum_list (map (\<lambda>(s, pgs). mset (map fst pgs)) ss)"

definition grouped_mset :: "grouped_files \<Rightarrow> string multiset" where
  "grouped_mset g = sum_list (map (\<lambda>(v, ss). sections_mset ss) g)"

text \<open>The fields of a record that are set when it is created.\<close>

definition same_fixed_fields :: "hadith \<Rightarrow> hadith \<Rightarrow> bool" where
  "same_fixed_fields h h' \<longleftrightarrow>
     vol h' = vol h \<and> sec h' = sec h \<and> id' h' = id' h \<and> title h' = title h \<and>
     ghael h' = ghael h \<and> sanad h' = sanad h"

definition keeps_fixed_fields :: "string \<Rightarrow> hadith \<Rightarrow> hadiths \<Rightarrow> bool" where
  "keeps_fixed_fields k h byId \<longleftrightarrow>
     (case map_of byId k of None \<Rightarrow> False | Some h' \<Rightarrow> same_fixed_fields h h')"

text \<open>
  The invariants of a record: it is stored under its own identity, has a page, and has no
  page and no text variant twice.
\<close>

definition well_formed_hadith :: "string \<Rightarrow> hadith \<Rightarrow> bool" where
  "well_formed_hadith k h \<longleftrightarrow>
     id' h = k \<and> pages h \<noteq> [] \<and> distinct (pages h) \<and> distinct (parts h)"

definition well_formed :: "hadiths \<Rightarrow> bool" where
  "well_formed byId \<longleftrightarrow>
     distinct (map fst byId) \<and> (\<forall>k h. (k, h) \<in> set byId \<longrightarrow> well_formed_hadith k h)"

text \<open>The failures of a source page that throw.\<close>

definition structural_failure :: "page_json \<Rightarrow> bool" where
  "structural_failure j \<longleftrightarrow> j = Unparsable \<or> j = NoData \<or> j = NoFirstElement"

text \<open>A paragraph of a page of the run that the fallback pattern matches.\<close>

definition fallback_match_on :: "files \<Rightarrow> string list \<Rightarrow> parag \<Rightarrow> bool" where
  "fallback_match_on fs paths parag \<longleftrightarrow>
     (\<exists>filePath ps. filePath \<in> set paths \<and> fs filePath = ParagList ps \<and>
        parag \<in> set ps \<and> p_match parag \<noteq> None)"

text \<open>
  The heading left over after a list of fragments, and after the pages of a run: the last
  heading that is not empty after trimming, in the order of the traversal, or the title
  the traversal started with.
\<close>

definition title_after :: "string \<Rightarrow> parag list \<Rightarrow> string" where
  "title_after t ps =
     foldl (\<lambda>t parag. if trim (heading_text parag) \<noteq> [] then trim (heading_text parag) else t)
       t ps"

definition parags_read :: "files \<Rightarrow> string \<Rightarrow> parag list" where
  "parags_read fs p =
     (case fs p of
        ParagList ps \<Rightarrow> (case path_match p of None \<Rightarrow> [] | Some m \<Rightarrow> ps)
      | _ \<Rightarrow> [])"

definition leftover_title :: "files \<Rightarrow> string list \<Rightarrow> string" where
  "leftover_title fs paths = foldl (\<lambda>t p. title_after t (parags_read fs p)) ''Untitled'' paths"

definition fallback_ready :: "string \<Rightarrow> parser_state \<Rightarrow> bool" where
  "fallback_ready t st \<longleftrightarrow> currentTitle st = t \<and> (\<forall>h \<in> snd ` set (hadithsById st). title h = t)"

text \<open>A quotation element without a usable \<open>revayatindex\<close> attribute.\<close>

definition lacks_index :: "hadith_element \<Rightarrow> bool" where
  "lacks_index el \<longleftrightarrow> revayatindex el = None \<or> revayatindex el = Some []"

text \<open>
  The directory layout of the specification, \<open>root/volume_V/section_S/page_P.json\<close>, and
  two paths of which neither, followed by an underscore, begins the other.
\<close>

definition in_layout :: "string \<Rightarrow> string \<Rightarrow> bool" where
  "in_layout root p \<longleftrightarrow>
     (\<exists>d1 d2 d3.
        p = root @ ''/'' @ pattern_suffix d1 d2 d3 \<and>
        digit_string d1 \<and> digit_string d2 \<and> digit_string d3)"

definition apart :: "string \<Rightarrow> string \<Rightarrow> bool" where
  "apart f1 f2 \<longleftrightarrow> \<not> prefix (f1 @ ''_'') f2 \<and> \<not> prefix (f2 @ ''_'') f1"

text \<open>
  For the retry loop: every one of the next \<open>n\<close> requests for the text fails, whichever
  key it is sent with; and the loop is reached, which it is unless the text is a title
  that \<open>titleCache\<close> answers.
\<close>

definition all_fail :: "api \<Rightarrow> bool \<Rightarrow> string \<Rightarrow> nat \<Rightarrow> nat \<Rightarrow> bool" where
  "all_fail service isTitle text first n \<longleftrightarrow>
     (\<forall>k < n. \<forall>i. \<exists>status. service (first + k) i isTitle text = ApiError status)"

definition enters_loop :: "translator \<Rightarrow> string \<Rightarrow> bool \<Rightarrow> bool" where
  "enters_loop st input isTitle \<longleftrightarrow>
     \<not> isTitle \<or> js_get (titleCache st) input = Undefined \<or> js_get (titleCache st) input = Own []"

text \<open>
  For the translation driver: the records still to translate, in the order of
  \<open>hadiths.json\<close>; what a run shows when it translates the records \<open>news\<close> one after
  the other, each written with all before it as soon as it is translated; and the line
  logged for a record whose translation throws.
\<close>

definition pending :: "string list \<Rightarrow> source_hadith list \<Rightarrow> source_hadith list" where
  "pending translatedIds hadiths =
     filter (\<lambda>h. src_id h \<notin> set translatedIds \<and> trim (src_content h) \<noteq> []) hadiths"

fun expected_events :: "translated_hadith list \<Rightarrow> translated_hadith list \<Rightarrow> event list" where
  "expected_events file [] = []"
| "expected_events file (n # ns) =
     [Translating (src_id (source n)), WriteFile (file @ [n]), Saved (src_id (source n))]
     @ expected_events (file @ [n]) ns"

definition interrupted_at :: "error option \<Rightarrow> source_hadith list \<Rightarrow> nat \<Rightarrow> event list" where
  "interrupted_at t todo n =
     (case t of None \<Rightarrow> [] | Some e \<Rightarrow> [Translating (src_id (todo ! n))])"

text \<open>
  Submitting the records \<open>todo\<close> for translation, one after the other: the title of a
  record, then its content, goes through \<open>translateText\<close>, and the new record is the old
  one with the two answers, trimmed, as \<open>title_fa\<close> and \<open>content_fa\<close>. The result is the
  new records, the state of the translator at the end, and the error that stopped the
  work, if one did.
\<close>

fun translate_pending ::
  "api \<Rightarrow> string list \<Rightarrow> translator \<Rightarrow> source_hadith list \<Rightarrow>
   translated_hadith list \<times> translator \<times> error option" where
  "translate_pending service apiKeys st [] = ([], st, None)"
| "translate_pending service apiKeys st (h # todo) =
     (case translateText service apiKeys (src_title h) True st of
        (translatedTitle, st1) \<Rightarrow>
     (case translateText service apiKeys (src_content h) False st1 of
        (translatedContent, st2) \<Rightarrow>
     (case translatedTitle of
        NotText \<Rightarrow> ([], st2, Some TypeError)
      | Text t \<Rightarrow>
          (case translatedContent of
             NotText \<Rightarrow> ([], st2, Some TypeError)
           | Text c \<Rightarrow>
               (case translate_pending service apiKeys st2 todo of
                  (news, st', e) \<Rightarrow>
                    (\<lparr> source = h, title_fa = trim t, content_fa = trim c \<rparr> # news, st', e))))))"

text \<open>
  Pages for the examples: one fragment with a heading, the given quotations and a
  paragraph that the fallback pattern matches.
\<close>

definition example_element :: "string \<Rightarrow> string \<Rightarrow> hadith_element" where
  "example_element r c =
     \<lparr> revayatindex = Some r, closest_p_id = Some ''p1'', content_text = c,
       maasoom_text = ''m'', sanad_text = ''s m'' \<rparr>"

definition example_page :: "string \<Rightarrow> hadith_element list \<Rightarrow> page_json" where
  "example_page h es =
     ParagList [\<lparr> heading_text = h, hadith_elements = es, p_match = Some (''a '', '' b''),
                  paragraphId = Some ''1'' \<rparr>]"

definition example_files :: files where
  "example_files p =
     (if p = ''/b/volume_1/section_1/page_3.json''
        then example_page ''T1'' [example_element ''42'' '' A '']
      else if p = ''/b/volume_1/section_1/page_7.json''
        then example_page ''T2'' [example_element ''42'' ''B'']
      else if p = ''/b/volume_1/section_1/page_9.json''
        then example_page [] [example_element ''42'' ''A'']
      else NoParagList)"

definition example_hadith :: hadith where
  "example_hadith =
     \<lparr> vol = 1, sec = 1, pages = [3], id' = ''42'', title = ''T1'', ghael = ''m'',
       sanad = ''s m'', parts = [''A''] \<rparr>"

definition broken_files :: files where
  "broken_files p =
     (if p = ''/b/volume_1/section_1/page_1.json'' then Unparsable else example_files p)"

definition heading_files :: files where
  "heading_files p =
     (if p = ''/b/volume_1/section_1/page_3.json'' then example_page ''T1'' []
      else if p = ''/b/volume_1/section_1/page_7.json'' then example_page '' T2 '' []
      else NoParagList)"

definition fallback_hadith :: hadith where
  "fallback_hadith =
     \<lparr> vol = 1, sec = 1, pages = [3], id' = ''fallback_1'', title = ''T2'', ghael = ''a'',
       sanad = [], parts = [''b''] \<rparr>"

text \<open>
  Two quotations without index: one in the page file, with a paragraph identifier that
  contains an underscore, and one in a file below a directory \<open>page_1.json_x\<close> beside it.
\<close>

definition anonymous_element :: "string \<Rightarrow> string \<Rightarrow> hadith_element" where
  "anonymous_element paragraph c =
     \<lparr> revayatindex = None, closest_p_id = Some paragraph, content_text = c,
       maasoom_text = ''m'', sanad_text = ''s m'' \<rparr>"

definition colliding_files :: files where
  "colliding_files p =
     (if p = ''/b/volume_1/section_1/page_1.json''
        then example_page ''T1''
               [anonymous_element ''x/volume_1/section_1/page_2.json_c'' ''A'']
      else if p = ''/b/volume_1/section_1/page_1.json_x/volume_1/section_1/page_2.json''
        then example_page ''T2'' [anonymous_element ''c'' ''B'']
      else NoParagList)"

text \<open>
  A service whose first four requests are refused and one that refuses every request, and
  records for a run of the translation driver.
\<close>

definition example_service :: api where
  "example_service n i isTitle text =
     (if n < 4 then ApiError (Some 429) else Translation (''fa '' @ text))"

definition refusing_service :: api where
  "refusing_service n i isTitle text = ApiError (Some 503)"

definition example_source :: "string \<Rightarrow> string \<Rightarrow> source_hadith" where
  "example_source i c = \<lparr> src_id = i, src_title = ''t'', src_content = c \<rparr>"

definition example_loaded :: "translated_hadith list" where
  "example_loaded =
     [\<lparr> source = example_source ''1'' ''c1'', title_fa = ''x'', content_fa = ''y'' \<rparr>]"

definition example_hadiths :: "source_hadith list" where
  "example_hadiths =
     [example_source ''1'' ''c1'', example_source ''2'' ''  '', example_source ''3'' ''c3'',
      example_source ''4'' ''c4'']"

section \<open>General facts\<close>

lemma set_update_cases:
  "(k', w) \<in> set (AList.update k v al) \<Longrightarrow> (k', w) \<in> set al \<or> (k' = k \<and> w = v)"
  by (induction al) (auto split: if_splits)

lemma for_each_preserves:
  assumes step: "\<And>s x s'. P s \<Longrightarrow> body s x = Inr s' \<Longrightarrow> P s'"
    and "P s" and "for_each body s xs = Inr s'"
  shows "P s'"
  using assms(2,3)
proof (induction xs arbitrary: s)
  case Nil
  then show ?case by simp
next
  case (Cons x xs)
  from Cons.prems(2) obtain s1 where 1: "body s x = Inr s1" and 2: "for_each body s1 xs = Inr s'"
    by (auto split: sum.splits)
  from step [OF Cons.prems(1) 1] have "P s1" .
  from Cons.IH [OF this 2] show ?case .
qed

lemma js_get_Own: "map_of obj key = Some v \<Longrightarrow> js_get obj key = Own v"
  by (simp add: js_get_def)

lemma js_get_Undefined: "js_get obj key = Undefined \<Longrightarrow> map_of obj key = None"
  by (auto simp: js_get_def split: option.splits if_splits)

lemma for_each_skip:
  assumes "\<And>s. body s x = Inr s"
  shows "for_each body s (xs @ x # ys) = for_each body s (xs @ ys)"
  by (induction xs arbitrary: s) (auto simp: assms split: sum.splits)

lemma for_each_throws:
  assumes "x \<in> set xs" and "\<And>s. \<exists>e. body s x = Inl e"
  shows "\<exists>e. for_each body s xs = Inl e"
  using assms(1)
proof (induction xs arbitrary: s)
  case Nil
  then show ?case by simp
next
  case (Cons y ys)
  show ?case
  proof (cases "body s y")
    case (Inl e)
    then show ?thesis by simp
  next
    case (Inr s1)
    show ?thesis
    proof (cases "y = x")
      case True
      with assms(2) [of s] Inr show ?thesis by auto
    next
      case False
      with Cons.prems have "x \<in> set ys" by simp
      from Cons.IH [OF this, of s1] Inr show ?thesis by simp
    qed
  qed
qed

lemma dropWhile_fixed: "xs = [] \<or> \<not> P (hd xs) \<Longrightarrow> dropWhile P xs = xs"
  by (cases xs) auto

lemma trim_trim: "trim (trim s) = trim s"
proof -
  define u where "u = dropWhile js_ws s"
  define t where "t = rev (dropWhile js_ws (rev u))"
  have t: "trim s = t" by (simp add: trim_def t_def u_def)
  have u_split: "u = t @ rev (takeWhile js_ws (rev u))"
  proof -
    have "rev (takeWhile js_ws (rev u) @ dropWhile js_ws (rev u)) = rev (rev u)"
      by (simp only: takeWhile_dropWhile_id)
    then have "rev (dropWhile js_ws (rev u)) @ rev (takeWhile js_ws (rev u)) = u"
      by (simp only: rev_append rev_rev_ident)
    then show ?thesis by (simp only: t_def)
  qed
  have u_head: "u = [] \<or> \<not> js_ws (hd u)"
    unfolding u_def by (metis hd_dropWhile)
  have "t = [] \<or> \<not> js_ws (hd t)"
  proof (cases t)
    case Nil
    then show ?thesis by simp
  next
    case (Cons a rest)
    then have "t \<noteq> []" by simp
    with u_split have "hd u = hd t" by (metis hd_append2)
    moreover from u_split \<open>t \<noteq> []\<close> have "u \<noteq> []" by auto
    ultimately show ?thesis using u_head by simp
  qed
  then have front: "dropWhile js_ws t = t" by (rule dropWhile_fixed)
  have rear: "dropWhile js_ws (rev t) = rev t"
    by (simp add: t_def)
  show ?thesis
    unfolding t by (simp add: trim_def front rear)
qed

section \<open>The path pattern\<close>

lemma literal_iff: "literal l s = Some r \<longleftrightarrow> s = l @ r"
  by (induction l s rule: literal.induct) auto

lemma digits_Some:
  assumes "digits s = Some (ds, r)"
  shows "s = ds @ r \<and> digit_string ds"
proof -
  from assms have ds: "ds = takeWhile is_digit s" and r: "r = dropWhile is_digit s"
    and ne: "ds \<noteq> []"
    by (auto simp: digits_def Let_def split: if_splits)
  have "list_all is_digit ds"
    unfolding ds list_all_iff by (auto dest: set_takeWhileD)
  with ds r ne show ?thesis by (simp add: digit_string_def)
qed

lemma digits_run:
  assumes "digit_string ds" and "\<not> is_digit c"
  shows "digits (ds @ c # r) = Some (ds, c # r)"
proof -
  from assms(1) have all: "\<And>x. x \<in> set ds \<Longrightarrow> is_digit x" and ne: "ds \<noteq> []"
    by (auto simp: digit_string_def list_all_iff)
  have "takeWhile is_digit (ds @ c # r) = ds"
    using all assms(2) by (simp add: takeWhile_append2)
  moreover have "dropWhile is_digit (ds @ c # r) = c # r"
    using all assms(2) by (simp add: dropWhile_append2)
  ultimately show ?thesis using ne by (simp add: digits_def)
qed

lemma match_at_Some:
  assumes "match_at s = Some m"
  shows "\<exists>d1 d2 d3. s = pattern_suffix d1 d2 d3 \<and>
           digit_string d1 \<and> digit_string d2 \<and> digit_string d3 \<and>
           m = (Number d1, Number d2, Number d3)"
proof -
  from assms obtain s1 d1 s2 s3 d2 s4 s5 d3 s6 where
    "literal ''volume_'' s = Some s1" "digits s1 = Some (d1, s2)"
    "literal ''/section_'' s2 = Some s3" "digits s3 = Some (d2, s4)"
    "literal ''/page_'' s4 = Some s5" "digits s5 = Some (d3, s6)"
    "s6 = ''.json''" "m = (Number d1, Number d2, Number d3)"
    unfolding match_at_def
    by (auto split: option.splits prod.splits if_splits)
  then have "s = pattern_suffix d1 d2 d3 \<and> digit_string d1 \<and> digit_string d2 \<and>
      digit_string d3 \<and> m = (Number d1, Number d2, Number d3)"
    by (auto simp: literal_iff pattern_suffix_def dest!: digits_Some)
  then show ?thesis by blast
qed

lemma match_at_pattern:
  assumes "digit_string d1" "digit_string d2" "digit_string d3"
  shows "match_at (pattern_suffix d1 d2 d3) = Some (Number d1, Number d2, Number d3)"
proof -
  have slash: "\<not> is_digit CHR ''/''" and dot: "\<not> is_digit CHR ''.''"
    by (simp_all add: is_digit_def)
  have 1: "literal ''volume_'' (pattern_suffix d1 d2 d3)
           = Some (d1 @ CHR ''/'' # ''section_'' @ d2 @ ''/page_'' @ d3 @ ''.json'')"
    by (simp add: literal_iff pattern_suffix_def)
  have 2: "digits (d1 @ CHR ''/'' # ''section_'' @ d2 @ ''/page_'' @ d3 @ ''.json'')
           = Some (d1, CHR ''/'' # ''section_'' @ d2 @ ''/page_'' @ d3 @ ''.json'')"
    using assms(1) slash by (rule digits_run)
  have 3: "literal ''/section_'' (CHR ''/'' # ''section_'' @ d2 @ ''/page_'' @ d3 @ ''.json'')
           = Some (d2 @ CHR ''/'' # ''page_'' @ d3 @ ''.json'')"
    by (simp add: literal_iff)
  have 4: "digits (d2 @ CHR ''/'' # ''page_'' @ d3 @ ''.json'')
           = Some (d2, CHR ''/'' # ''page_'' @ d3 @ ''.json'')"
    using assms(2) slash by (rule digits_run)
  have 5: "literal ''/page_'' (CHR ''/'' # ''page_'' @ d3 @ ''.json'')
           = Some (d3 @ CHR ''.'' # ''json'')"
    by (simp add: literal_iff)
  have 6: "digits (d3 @ CHR ''.'' # ''json'') = Some (d3, CHR ''.'' # ''json'')"
    using assms(3) dot by (rule digits_run)
  show ?thesis
    unfolding match_at_def by (simp only: 1 2 3 4 5 6 option.case prod.case) simp
qed

lemma path_match_Some:
  "path_match p = Some m \<Longrightarrow> \<exists>pre s. p = pre @ s \<and> match_at s = Some m"
proof (induction p)
  case Nil
  then show ?case by simp
next
  case (Cons c cs)
  show ?case
  proof (cases "match_at (c # cs)")
    case (Some m')
    with Cons.prems have "match_at (c # cs) = Some m" by simp
    then have "c # cs = [] @ (c # cs) \<and> match_at (c # cs) = Some m" by simp
    then show ?thesis by blast
  next
    case None
    with Cons.prems have "path_match cs = Some m" by simp
    from Cons.IH [OF this] obtain pre s where "cs = pre @ s" "match_at s = Some m" by blast
    then have "c # cs = (c # pre) @ s \<and> match_at s = Some m" by simp
    then show ?thesis by blast
  qed
qed

lemma path_match_finds:
  "match_at s = Some m \<Longrightarrow> \<exists>m'. path_match (pre @ s) = Some m'"
proof (induction pre)
  case Nil
  show ?case
  proof (cases s)
    case Nil
    with \<open>match_at s = Some m\<close> show ?thesis by (simp add: match_at_def)
  next
    case (Cons c cs)
    with \<open>match_at s = Some m\<close> have "path_match ([] @ s) = Some m" by simp
    then show ?thesis ..
  qed
next
  case (Cons c pre)
  then show ?case by (cases "match_at (c # pre @ s)") auto
qed

lemma digit_run_unique:
  assumes "a @ x # u = b @ y # v"
    and "list_all is_digit a" "list_all is_digit b" "\<not> is_digit x" "\<not> is_digit y"
  shows "a = b \<and> u = v"
proof -
  have "a = takeWhile is_digit (a @ x # u)"
    using assms(2,4) by (simp add: takeWhile_append2 list_all_iff)
  also have "\<dots> = takeWhile is_digit (b @ y # v)" by (simp only: assms(1))
  also have "\<dots> = b"
    using assms(3,5) by (simp add: takeWhile_append2 list_all_iff)
  finally have "a = b" .
  with assms(1) show ?thesis by simp
qed

lemma pattern_suffix_unique:
  assumes eq: "pre @ pattern_suffix d1 d2 d3 = pre' @ pattern_suffix e1 e2 e3"
    and d: "digit_string d1" "digit_string d2" "digit_string d3"
    and e: "digit_string e1" "digit_string e2" "digit_string e3"
  shows "d1 = e1 \<and> d2 = e2 \<and> d3 = e3"
proof -
  have us: "\<not> is_digit CHR ''_''" by (simp add: is_digit_def)
  from d e have all: "list_all is_digit (rev d1)" "list_all is_digit (rev d2)"
    "list_all is_digit (rev d3)" "list_all is_digit (rev e1)" "list_all is_digit (rev e2)"
    "list_all is_digit (rev e3)"
    by (simp_all add: digit_string_def list_all_iff)
  from eq have "rev (pre @ pattern_suffix d1 d2 d3) = rev (pre' @ pattern_suffix e1 e2 e3)"
    by simp
  then have r3: "rev d3 @ CHR ''_'' # (''egap/'' @ rev d2 @ ''_noitces/'' @ rev d1 @ ''_emulov'' @ rev pre)
       = rev e3 @ CHR ''_'' # (''egap/'' @ rev e2 @ ''_noitces/'' @ rev e1 @ ''_emulov'' @ rev pre')"
    by (simp add: pattern_suffix_def)
  from digit_run_unique [OF r3 all(3) all(6) us us]
  have 3: "d3 = e3"
    and r2: "rev d2 @ CHR ''_'' # (''noitces/'' @ rev d1 @ ''_emulov'' @ rev pre)
       = rev e2 @ CHR ''_'' # (''noitces/'' @ rev e1 @ ''_emulov'' @ rev pre')"
    by simp_all
  from digit_run_unique [OF r2 all(2) all(5) us us]
  have 2: "d2 = e2"
    and r1: "rev d1 @ CHR ''_'' # (''emulov'' @ rev pre) = rev e1 @ CHR ''_'' # (''emulov'' @ rev pre')"
    by simp_all
  from digit_run_unique [OF r1 all(1) all(4) us us] have 1: "d1 = e1" by simp
  from 1 2 3 show ?thesis by simp
qed

lemma path_match_iff_pattern: "path_match p = Some m \<longleftrightarrow> matches_pattern p m"
proof
  assume "path_match p = Some m"
  from path_match_Some [OF this] obtain pre s where "p = pre @ s" "match_at s = Some m"
    by blast
  with match_at_Some [of s m] show "matches_pattern p m"
    unfolding matches_pattern_def by blast
next
  assume "matches_pattern p m"
  then obtain pre d1 d2 d3 where p: "p = pre @ pattern_suffix d1 d2 d3"
    and d: "digit_string d1" "digit_string d2" "digit_string d3"
    and m: "m = (Number d1, Number d2, Number d3)"
    unfolding matches_pattern_def by blast
  from match_at_pattern [OF d] have "match_at (pattern_suffix d1 d2 d3) = Some m"
    by (simp add: m)
  from path_match_finds [OF this, of pre] p obtain m' where m': "path_match p = Some m'"
    by auto
  from path_match_Some [OF m'] obtain pre' s where "p = pre' @ s" "match_at s = Some m'"
    by blast
  with match_at_Some [of s m'] obtain e1 e2 e3 where
    p': "p = pre' @ pattern_suffix e1 e2 e3"
    and e: "digit_string e1" "digit_string e2" "digit_string e3"
    and me: "m' = (Number e1, Number e2, Number e3)"
    by blast
  from p p' have "pre @ pattern_suffix d1 d2 d3 = pre' @ pattern_suffix e1 e2 e3" by simp
  from pattern_suffix_unique [OF this d e] m me have "m' = m" by simp
  with m' show "path_match p = Some m" by simp
qed

section \<open>The processing order of the paths\<close>

lemma update_sum:
  fixes M :: "'v \<Rightarrow> 'a multiset"
  shows "distinct (map fst al) \<Longrightarrow>
   sum_list (map (\<lambda>(k, v). M v) (AList.update k v' al))
     + (case map_of al k of None \<Rightarrow> {#} | Some v \<Rightarrow> M v)
   = sum_list (map (\<lambda>(k, v). M v) al) + M v'"
proof (induction al)
  case Nil
  then show ?case by simp
next
  case (Cons a al)
  obtain k0 v0 where a: "a = (k0, v0)" by (cases a)
  show ?case
  proof (cases "k0 = k")
    case True
    with Cons.prems a have "map_of al k = None"
      by (simp add: map_of_eq_None_iff)
    with True a show ?thesis by (simp add: ac_simps)
  next
    case False
    with Cons a show ?thesis by (simp add: ac_simps)
  qed
qed

lemma sum_list_perm:
  fixes F :: "'k \<Rightarrow> 'a multiset"
  assumes "mset xs = mset ys"
  shows "sum_list (map F xs) = sum_list (map F ys)"
proof -
  have "sum_list (map F xs) = sum_mset (image_mset F (mset xs))"
    by (metis mset_map sum_mset_sum_list)
  also have "\<dots> = sum_mset (image_mset F (mset ys))" using assms by simp
  also have "\<dots> = sum_list (map F ys)"
    by (metis mset_map sum_mset_sum_list)
  finally show ?thesis .
qed

lemma map_lookup_keys:
  "distinct (map fst al) \<Longrightarrow>
   map (\<lambda>k. G (map_of al k)) (map fst al) = map (\<lambda>(k, v). G (Some v)) al"
proof -
  assume d: "distinct (map fst al)"
  have "\<And>k v. (k, v) \<in> set al \<Longrightarrow> map_of al k = Some v"
    using d by (rule map_of_is_SomeI)
  then show ?thesis by (auto simp: map_eq_conv)
qed

lemma mset_section_paths_sum:
  assumes "distinct (map fst ss)"
  shows "mset (concat (map (section_paths ss) (sorted_keys ss))) = sections_mset ss"
proof -
  let ?G = "\<lambda>r. case r of None \<Rightarrow> {#} | Some pgs \<Rightarrow> mset (map fst (pgs :: page_entry list))"
  have eq: "\<And>s. mset (section_paths ss s) = ?G (map_of ss s)"
    by (simp add: section_paths_def split: option.splits)
  have "mset (concat (map (section_paths ss) (sorted_keys ss)))
        = sum_list (map (\<lambda>s. mset (section_paths ss s)) (sorted_keys ss))"
    by (simp add: mset_concat comp_def)
  also have "\<dots> = sum_list (map (\<lambda>s. ?G (map_of ss s)) (sorted_keys ss))"
    by (simp only: eq)
  also have "\<dots> = sum_list (map (\<lambda>s. ?G (map_of ss s)) (map fst ss))"
    by (rule sum_list_perm) (simp add: sorted_keys_def)
  also have "\<dots> = sum_list (map (\<lambda>(s, pgs). ?G (Some pgs)) ss)"
    by (rule arg_cong [where f = sum_list]) (rule map_lookup_keys [OF assms])
  also have "\<dots> = sections_mset ss"
    by (simp add: sections_mset_def)
  finally show ?thesis .
qed

lemma mset_volume_paths_sum:
  assumes "well_grouped g"
  shows "mset (concat (map (volume_paths g) (sorted_keys g))) = grouped_mset g"
proof -
  let ?G = "\<lambda>r. case r of None \<Rightarrow> {#}
     | Some ss \<Rightarrow> mset (concat (map (section_paths ss) (sorted_keys ss)))"
  from assms have d: "distinct (map fst g)"
    and ds: "\<And>v ss. (v, ss) \<in> set g \<Longrightarrow> distinct (map fst ss)"
    unfolding well_grouped_def by blast+
  have eq: "\<And>v. mset (volume_paths g v) = ?G (map_of g v)"
    by (simp add: volume_paths_def split: option.splits)
  have "mset (concat (map (volume_paths g) (sorted_keys g)))
        = sum_list (map (\<lambda>v. mset (volume_paths g v)) (sorted_keys g))"
    by (simp add: mset_concat comp_def)
  also have "\<dots> = sum_list (map (\<lambda>v. ?G (map_of g v)) (sorted_keys g))"
    by (simp only: eq)
  also have "\<dots> = sum_list (map (\<lambda>v. ?G (map_of g v)) (map fst g))"
    by (rule sum_list_perm) (simp add: sorted_keys_def)
  also have "\<dots> = sum_list (map (\<lambda>(v, ss). ?G (Some ss)) g)"
    by (rule arg_cong [where f = sum_list]) (rule map_lookup_keys [OF d])
  also have "\<dots> = sum_list (map (\<lambda>(v, ss). sections_mset ss) g)"
    by (rule arg_cong [where f = sum_list])
       (auto simp: map_eq_conv mset_section_paths_sum ds)
  finally show ?thesis by (simp add: grouped_mset_def)
qed

lemma well_grouped_group_file:
  assumes "well_grouped g"
  shows "well_grouped (group_file g f)"
proof (cases "path_match f")
  case None
  with assms show ?thesis by (simp add: group_file_def)
next
  case (Some m)
  obtain v s pg where m: "m = (v, s, pg)" by (cases m)
  define ss where "ss = (case map_of g v of None \<Rightarrow> [] | Some ss \<Rightarrow> ss)"
  define pgs where "pgs = (case map_of ss s of None \<Rightarrow> [] | Some ps \<Rightarrow> ps)"
  define ss' where "ss' = AList.update s (pgs @ [(f, pg)]) ss"
  have g': "group_file g f = AList.update v ss' g"
    using Some m by (simp add: group_file_def ss_def pgs_def ss'_def Let_def)
  from assms have d: "distinct (map fst g)"
    and old_d: "\<And>v0 ss0. (v0, ss0) \<in> set g \<Longrightarrow> distinct (map fst ss0)"
    and old_m: "\<And>v0 ss0 s0 pgs0 f0 pg0. (v0, ss0) \<in> set g \<Longrightarrow> (s0, pgs0) \<in> set ss0 \<Longrightarrow>
        (f0, pg0) \<in> set pgs0 \<Longrightarrow> path_match f0 = Some (v0, s0, pg0)"
    unfolding well_grouped_def by blast+
  have ss_in: "ss = [] \<or> (v, ss) \<in> set g"
    by (auto simp: ss_def split: option.splits dest: map_of_SomeD)
  have pgs_in: "pgs = [] \<or> (s, pgs) \<in> set ss"
    by (auto simp: pgs_def split: option.splits dest: map_of_SomeD)
  have ss_d: "distinct (map fst ss)"
    using ss_in old_d by auto
  have ss_m: "\<And>s0 pgs0 f0 pg0. (s0, pgs0) \<in> set ss \<Longrightarrow> (f0, pg0) \<in> set pgs0 \<Longrightarrow>
        path_match f0 = Some (v, s0, pg0)"
    using ss_in old_m by fastforce
  have pgs_m: "\<And>f0 pg0. (f0, pg0) \<in> set pgs \<Longrightarrow> path_match f0 = Some (v, s, pg0)"
    using pgs_in ss_m by fastforce
  have ss'_d: "distinct (map fst ss')"
    using ss_d by (simp add: ss'_def distinct_update)
  have ss'_m: "path_match f0 = Some (v, s0, pg0)"
    if a: "(s0, pgs0) \<in> set ss'" and b: "(f0, pg0) \<in> set pgs0" for s0 pgs0 f0 pg0
  proof -
    from a have "(s0, pgs0) \<in> set ss \<or> (s0 = s \<and> pgs0 = pgs @ [(f, pg)])"
      unfolding ss'_def by (rule set_update_cases)
    then show ?thesis
    proof
      assume "(s0, pgs0) \<in> set ss"
      then show ?thesis using b by (rule ss_m)
    next
      assume c: "s0 = s \<and> pgs0 = pgs @ [(f, pg)]"
      with b have "(f0, pg0) \<in> set pgs \<or> (f0 = f \<and> pg0 = pg)" by auto
      then show ?thesis using pgs_m c Some m by auto
    qed
  qed
  have new: "(v0, ss0) \<in> set g \<or> (v0 = v \<and> ss0 = ss')"
    if "(v0, ss0) \<in> set (AList.update v ss' g)" for v0 ss0
    using that by (rule set_update_cases)
  show ?thesis
    unfolding g' well_grouped_def
  proof (intro conjI allI impI)
    show "distinct (map fst (AList.update v ss' g))"
      using d by (simp add: distinct_update)
  next
    fix v0 ss0 assume "(v0, ss0) \<in> set (AList.update v ss' g)"
    then show "distinct (map fst ss0)"
      using new old_d ss'_d by blast
  next
    fix v0 ss0 s0 pgs0 f0 pg0
    assume "(v0, ss0) \<in> set (AList.update v ss' g)"
      and "(s0, pgs0) \<in> set ss0" and "(f0, pg0) \<in> set pgs0"
    then show "path_match f0 = Some (v0, s0, pg0)"
      using new old_m ss'_m by blast
  qed
qed

lemma grouped_mset_group_file:
  assumes "well_grouped g"
  shows "grouped_mset (group_file g f) =
         grouped_mset g + (if path_match f = None then {#} else {#f#})"
proof (cases "path_match f")
  case None
  then show ?thesis by (simp add: group_file_def)
next
  case (Some m)
  obtain v s pg where m: "m = (v, s, pg)" by (cases m)
  define ss where "ss = (case map_of g v of None \<Rightarrow> [] | Some ss \<Rightarrow> ss)"
  define pgs where "pgs = (case map_of ss s of None \<Rightarrow> [] | Some ps \<Rightarrow> ps)"
  define ss' where "ss' = AList.update s (pgs @ [(f, pg)]) ss"
  have g': "group_file g f = AList.update v ss' g"
    using Some m by (simp add: group_file_def ss_def pgs_def ss'_def Let_def)
  from assms have d: "distinct (map fst g)"
    and old: "\<And>v0 ss0. (v0, ss0) \<in> set g \<Longrightarrow> distinct (map fst ss0)"
    unfolding well_grouped_def by blast+
  have dss: "distinct (map fst ss)"
  proof (cases "map_of g v")
    case None
    then show ?thesis by (simp add: ss_def)
  next
    case (Some a)
    then have "(v, a) \<in> set g" by (rule map_of_SomeD)
    with old [of v a] Some show ?thesis by (simp add: ss_def)
  qed
  have pgs_eq: "(case map_of ss s of None \<Rightarrow> {#} | Some ps \<Rightarrow> mset (map fst ps))
                = mset (map fst pgs)"
    by (simp add: pgs_def split: option.splits)
  have ss_eq: "(case map_of g v of None \<Rightarrow> {#} | Some x \<Rightarrow> sections_mset x)
                = sections_mset ss"
    by (simp add: ss_def sections_mset_def split: option.splits)
  have "sections_mset ss' + mset (map fst pgs)
        = sections_mset ss + mset (map fst (pgs @ [(f, pg)]))"
    using update_sum [OF dss, of "\<lambda>ps. mset (map fst ps)" s "pgs @ [(f, pg)]"]
    by (simp only: sections_mset_def ss'_def pgs_eq)
  then have 1: "sections_mset ss' = sections_mset ss + {#f#}" by simp
  have "grouped_mset (AList.update v ss' g) + sections_mset ss
        = grouped_mset g + sections_mset ss'"
    using update_sum [OF d, of sections_mset v ss']
    by (simp only: grouped_mset_def ss_eq)
  with 1 have "grouped_mset (AList.update v ss' g) = grouped_mset g + {#f#}" by simp
  with g' Some show ?thesis by simp
qed

lemma groupedFiles_inv:
  "well_grouped (groupedFiles fs) \<and>
   grouped_mset (groupedFiles fs) = mset (filter (\<lambda>p. path_match p \<noteq> None) fs)"
proof (induction fs rule: rev_induct)
  case Nil
  show ?case by (simp add: groupedFiles_def well_grouped_def grouped_mset_def)
next
  case (snoc f fs)
  have step: "groupedFiles (fs @ [f]) = group_file (groupedFiles fs) f"
    by (simp add: groupedFiles_def)
  from snoc show ?case
    by (simp add: step well_grouped_group_file grouped_mset_group_file)
qed

lemma sortedPaths_mset:
  "mset (sortedPaths fs) = mset (filter (\<lambda>p. path_match p \<noteq> None) fs)"
  using groupedFiles_inv [of fs]
  by (simp add: sortedPaths_def Let_def mset_volume_paths_sum)

lemma sorted_wrt_concat_map:
  assumes "sorted_wrt (<) (ks :: nat list)"
    and "\<And>k. k \<in> set ks \<Longrightarrow> sorted_wrt R (F k)"
    and "\<And>k k' x y. k \<in> set ks \<Longrightarrow> k' \<in> set ks \<Longrightarrow> k < k' \<Longrightarrow>
           x \<in> set (F k) \<Longrightarrow> y \<in> set (F k') \<Longrightarrow> R x y"
  shows "sorted_wrt R (concat (map F ks))"
  using assms
proof (induction ks)
  case Nil
  show ?case by simp
next
  case (Cons k ks)
  have "sorted_wrt R (concat (map F ks))"
  proof (rule Cons.IH)
    show "sorted_wrt (<) ks" using Cons.prems(1) by simp
    show "\<And>k. k \<in> set ks \<Longrightarrow> sorted_wrt R (F k)" using Cons.prems(2) by simp
    show "\<And>k k' x y. k \<in> set ks \<Longrightarrow> k' \<in> set ks \<Longrightarrow> k < k' \<Longrightarrow>
           x \<in> set (F k) \<Longrightarrow> y \<in> set (F k') \<Longrightarrow> R x y"
      using Cons.prems(3) by (meson list.set_intros(2))
  qed
  moreover have "sorted_wrt R (F k)" using Cons.prems(2) by simp
  moreover have "\<forall>x \<in> set (F k). \<forall>y \<in> set (concat (map F ks)). R x y"
    using Cons.prems(1,3) by fastforce
  ultimately show ?case by (simp add: sorted_wrt_append)
qed

lemma sorted_keys_strict:
  "distinct (map fst obj) \<Longrightarrow> sorted_wrt (<) (sorted_keys obj)"
  by (simp add: sorted_keys_def strict_sorted_iff)

lemma set_sorted_keys: "set (sorted_keys obj) = fst ` set obj"
  by (simp add: sorted_keys_def)

lemma section_paths_match:
  assumes "well_grouped g" and "(v, ss) \<in> set g" and "x \<in> set (section_paths ss s)"
  shows "\<exists>pg. path_match x = Some (v, s, pg)"
proof -
  from assms(3) obtain pgs pg where "map_of ss s = Some pgs" and "(x, pg) \<in> set pgs"
    by (cases "map_of ss s") (auto simp: section_paths_def)
  then have "(s, pgs) \<in> set ss" by (auto dest: map_of_SomeD)
  with assms(1,2) \<open>(x, pg) \<in> set pgs\<close> have "path_match x = Some (v, s, pg)"
    unfolding well_grouped_def by blast
  then show ?thesis ..
qed

lemma section_paths_sorted:
  assumes "well_grouped g" and "(v, ss) \<in> set g"
  shows "sorted_wrt path_le (section_paths ss s)"
proof (cases "map_of ss s")
  case None
  then show ?thesis by (simp add: section_paths_def)
next
  case (Some pgs)
  then have in_ss: "(s, pgs) \<in> set ss" by (rule map_of_SomeD)
  have m: "\<And>f pg. (f, pg) \<in> set pgs \<Longrightarrow> path_match f = Some (v, s, pg)"
    using assms in_ss unfolding well_grouped_def by blast
  have "sorted (map snd (sort_key snd pgs))" by (rule sorted_sort_key)
  then have "sorted_wrt (\<lambda>a b. snd a \<le> snd b) (sort_key snd pgs)"
    by (simp add: sorted_map)
  then have "sorted_wrt (\<lambda>a b. path_le (fst a) (fst b)) (sort_key snd pgs)"
  proof (rule sorted_wrt_mono_rel [rotated])
    fix a b assume "a \<in> set (sort_key snd pgs)" "b \<in> set (sort_key snd pgs)"
      and le: "snd a \<le> snd b"
    then have "path_match (fst a) = Some (v, s, snd a)" "path_match (fst b) = Some (v, s, snd b)"
      using m [of "fst a" "snd a"] m [of "fst b" "snd b"] by simp_all
    with le show "path_le (fst a) (fst b)" by (simp add: path_le_def triple_le_def)
  qed
  then show ?thesis using Some by (simp add: section_paths_def sorted_wrt_map)
qed

lemma volume_paths_match:
  assumes "well_grouped g" and "x \<in> set (volume_paths g v)"
  shows "\<exists>s pg. path_match x = Some (v, s, pg)"
proof -
  from assms(2) obtain ss s where "map_of g v = Some ss" and "x \<in> set (section_paths ss s)"
    by (cases "map_of g v") (auto simp: volume_paths_def)
  then have "(v, ss) \<in> set g" by (auto dest: map_of_SomeD)
  from section_paths_match [OF assms(1) this \<open>x \<in> set (section_paths ss s)\<close>]
  show ?thesis by blast
qed

lemma volume_paths_sorted:
  assumes "well_grouped g"
  shows "sorted_wrt path_le (volume_paths g v)"
proof (cases "map_of g v")
  case None
  then show ?thesis by (simp add: volume_paths_def)
next
  case (Some ss)
  then have in_g: "(v, ss) \<in> set g" by (rule map_of_SomeD)
  with assms have d: "distinct (map fst ss)" unfolding well_grouped_def by blast
  have "sorted_wrt path_le (concat (map (section_paths ss) (sorted_keys ss)))"
  proof (rule sorted_wrt_concat_map)
    show "sorted_wrt (<) (sorted_keys ss)" using d by (rule sorted_keys_strict)
  next
    fix s show "sorted_wrt path_le (section_paths ss s)"
      using assms in_g by (rule section_paths_sorted)
  next
    fix s s' x y
    assume "s < s'" "x \<in> set (section_paths ss s)" "y \<in> set (section_paths ss s')"
    then show "path_le x y"
      using section_paths_match [OF assms in_g, of x s] section_paths_match [OF assms in_g, of y s']
      by (auto simp: path_le_def triple_le_def)
  qed
  with Some show ?thesis by (simp add: volume_paths_def)
qed

lemma sortedPaths_sorted: "sorted_wrt path_le (sortedPaths fs)"
proof -
  let ?g = "groupedFiles fs"
  have wg: "well_grouped ?g" using groupedFiles_inv [of fs] by simp
  then have d: "distinct (map fst ?g)" by (simp add: well_grouped_def)
  have "sorted_wrt path_le (concat (map (volume_paths ?g) (sorted_keys ?g)))"
  proof (rule sorted_wrt_concat_map)
    show "sorted_wrt (<) (sorted_keys ?g)" using d by (rule sorted_keys_strict)
  next
    fix v show "sorted_wrt path_le (volume_paths ?g v)"
      using wg by (rule volume_paths_sorted)
  next
    fix v v' x y
    assume "v < v'" "x \<in> set (volume_paths ?g v)" "y \<in> set (volume_paths ?g v')"
    then show "path_le x y"
      using volume_paths_match [OF wg, of x v] volume_paths_match [OF wg, of y v']
      by (auto simp: path_le_def triple_le_def)
  qed
  then show ?thesis by (simp add: sortedPaths_def Let_def)
qed

lemma digit_values: "map digit_val ''0123456789'' = [0, 1, 2, 3, 4, 5, 6, 7, 8, 9]"
  by (simp add: digit_val_def)

lemma decimal_snoc: "decimal (ds @ [c]) = 10 * decimal ds + digit_val c"
  by (simp add: decimal_def)

lemma decimal_value_snoc: "decimal_value (ds @ [c]) = 10 * decimal_value ds + digit_val c"
proof -
  have "(\<Sum>i<length ds. digit_val ((ds @ [c]) ! i) * 10 ^ (length (ds @ [c]) - Suc i))
        = (\<Sum>i<length ds. 10 * (digit_val (ds ! i) * 10 ^ (length ds - Suc i)))"
  proof (rule sum.cong)
    fix i assume "i \<in> {..<length ds}"
    then have i: "i < length ds" by simp
    then have "length (ds @ [c]) - Suc i = Suc (length ds - Suc i)" by simp
    with i show "digit_val ((ds @ [c]) ! i) * 10 ^ (length (ds @ [c]) - Suc i)
          = 10 * (digit_val (ds ! i) * 10 ^ (length ds - Suc i))"
      by (simp add: nth_append)
  qed simp
  then show ?thesis
    by (simp add: decimal_value_def sum_distrib_left)
qed

lemma decimal_eq: "decimal ds = decimal_value ds"
proof (induction ds rule: rev_induct)
  case Nil
  show ?case by (simp add: decimal_def decimal_value_def)
next
  case (snoc c ds)
  then show ?case by (simp only: decimal_snoc decimal_value_snoc)
qed

lemma bitlen_le_iff: "bitlen n \<le> k \<longleftrightarrow> n < 2 ^ k"
proof (induction k arbitrary: n)
  case 0
  show ?case by (cases "n = 0") (simp_all add: bitlen.simps [of n] bitlen.simps [of 0])
next
  case (Suc k)
  show ?case
  proof (cases "n = 0")
    case True
    then show ?thesis by (simp add: bitlen.simps [of 0])
  next
    case False
    have "n div 2 < 2 ^ k \<longleftrightarrow> n < 2 ^ Suc k" by auto
    with False Suc [of "n div 2"] show ?thesis by (simp add: bitlen.simps [of n])
  qed
qed

lemma to_double_exact: "n < 2 ^ 53 \<Longrightarrow> to_double n = n"
  by (simp add: to_double_def bitlen_le_iff)

lemma Number_exact: "decimal_value ds < 2 ^ 53 \<Longrightarrow> Number ds = decimal_value ds"
  by (simp add: Number_def decimal_eq to_double_exact)

lemma matches_pattern_exact:
  "matches_pattern p m \<longleftrightarrow> (\<exists>t. exact_triple p t \<and> m = as_read t)"
proof
  assume "matches_pattern p m"
  then obtain pre d1 d2 d3 where p: "p = pre @ pattern_suffix d1 d2 d3"
    and d: "digit_string d1" "digit_string d2" "digit_string d3"
    and m: "m = (Number d1, Number d2, Number d3)"
    unfolding matches_pattern_def by blast
  from p d have "exact_triple p (decimal_value d1, decimal_value d2, decimal_value d3)"
    unfolding exact_triple_def by blast
  moreover from m have "m = as_read (decimal_value d1, decimal_value d2, decimal_value d3)"
    by (simp add: as_read_def Number_def decimal_eq)
  ultimately show "\<exists>t. exact_triple p t \<and> m = as_read t" by blast
next
  assume "\<exists>t. exact_triple p t \<and> m = as_read t"
  then obtain pre d1 d2 d3 where p: "p = pre @ pattern_suffix d1 d2 d3"
    and d: "digit_string d1" "digit_string d2" "digit_string d3"
    and m: "m = as_read (decimal_value d1, decimal_value d2, decimal_value d3)"
    unfolding exact_triple_def by blast
  from m have "m = (Number d1, Number d2, Number d3)"
    by (simp add: as_read_def Number_def decimal_eq)
  with p d show "matches_pattern p m"
    unfolding matches_pattern_def by blast
qed

lemma path_match_exact:
  "path_match p = Some m \<longleftrightarrow> (\<exists>t. exact_triple p t \<and> m = as_read t)"
  by (simp only: path_match_iff_pattern matches_pattern_exact)

lemma exact_triple_unique:
  assumes "exact_triple p t" and "exact_triple p t'"
  shows "t = t'"
proof -
  from assms obtain pre d1 d2 d3 pre' e1 e2 e3 where
    p: "p = pre @ pattern_suffix d1 d2 d3" and p': "p = pre' @ pattern_suffix e1 e2 e3"
    and d: "digit_string d1" "digit_string d2" "digit_string d3"
    and e: "digit_string e1" "digit_string e2" "digit_string e3"
    and t: "t = (decimal_value d1, decimal_value d2, decimal_value d3)"
    and t': "t' = (decimal_value e1, decimal_value e2, decimal_value e3)"
    unfolding exact_triple_def by blast
  from p p' have "pre @ pattern_suffix d1 d2 d3 = pre' @ pattern_suffix e1 e2 e3" by simp
  from pattern_suffix_unique [OF this d e] t t' show ?thesis by simp
qed

lemma path_match_None_iff: "path_match p = None \<longleftrightarrow> (\<nexists>t. exact_triple p t)"
proof -
  have "path_match p \<noteq> None \<longleftrightarrow> (\<exists>m. path_match p = Some m)" by auto
  also have "\<dots> \<longleftrightarrow> (\<exists>t. exact_triple p t)"
    by (simp only: path_match_exact) blast
  finally show ?thesis by blast
qed

lemma in_exact_rangeI:
  "exact_triple p t \<Longrightarrow> below_2_53 t \<Longrightarrow> in_exact_range p"
  unfolding in_exact_range_def using exact_triple_unique by blast

lemma in_exact_range_no_match: "path_match p = None \<Longrightarrow> in_exact_range p"
  by (simp add: in_exact_range_def path_match_None_iff)

lemma as_read_exact: "below_2_53 t \<Longrightarrow> as_read t = t"
  by (cases t) (simp add: as_read_def below_2_53_def to_double_exact)

lemma path_le_read: "path_le p q \<longleftrightarrow> read_path_le p q"
proof
  assume "path_le p q"
  then obtain a' b' where "path_match p = Some a'" "path_match q = Some b'" "triple_le a' b'"
    by (auto simp: path_le_def split: option.splits)
  then show "read_path_le p q"
    unfolding read_path_le_def path_match_exact by blast
next
  assume "read_path_le p q"
  then obtain a b where "exact_triple p a" "exact_triple q b" "triple_le (as_read a) (as_read b)"
    unfolding read_path_le_def by blast
  moreover from this have "path_match p = Some (as_read a)" "path_match q = Some (as_read b)"
    unfolding path_match_exact by blast+
  ultimately show "path_le p q" by (simp add: path_le_def)
qed

lemma set_sortedPaths: "set (sortedPaths filePaths) \<subseteq> set filePaths"
proof -
  have "set (sortedPaths filePaths) = set_mset (mset (sortedPaths filePaths))" by simp
  also have "\<dots> = set_mset (mset (filter (\<lambda>p. path_match p \<noteq> None) filePaths))"
    by (simp only: sortedPaths_mset)
  also have "\<dots> \<subseteq> set filePaths" by auto
  finally show ?thesis .
qed

lemma exact_tripleI:
  assumes "p = pre @ pattern_suffix d1 d2 d3"
    and "digit_string d1" "digit_string d2" "digit_string d3"
  shows "exact_triple p (decimal d1, decimal d2, decimal d3)"
  unfolding exact_triple_def decimal_eq using assms by blast

lemma in_exact_range_path:
  assumes "p = pre @ pattern_suffix d1 d2 d3"
    and "digit_string d1" "digit_string d2" "digit_string d3"
    and "decimal d1 < 2 ^ 53" "decimal d2 < 2 ^ 53" "decimal d3 < 2 ^ 53"
  shows "in_exact_range p"
proof (rule in_exact_rangeI)
  show "exact_triple p (decimal d1, decimal d2, decimal d3)"
    using assms(1-4) by (rule exact_tripleI)
  show "below_2_53 (decimal d1, decimal d2, decimal d3)"
    using assms(5-7) by (simp add: below_2_53_def)
qed

lemma bitlen_eq: "2 ^ k \<le> n \<Longrightarrow> n < 2 ^ Suc k \<Longrightarrow> bitlen n = Suc k"
  using bitlen_le_iff [of n k] bitlen_le_iff [of n "Suc k"] by simp

lemma to_double_2_53_plus_1: "to_double 9007199254740993 = 9007199254740992"
proof -
  have "bitlen 9007199254740993 = Suc 53"
    by (rule bitlen_eq) simp_all
  then show ?thesis
    by (simp add: to_double_def Infinity_def)
qed

lemma to_double_2_53: "to_double 9007199254740992 = 9007199254740992"
proof -
  have "bitlen 9007199254740992 = Suc 53"
    by (rule bitlen_eq) simp_all
  then show ?thesis
    by (simp add: to_double_def Infinity_def)
qed

text \<open>
  C2, as far as it holds. The processing order holds exactly the paths that end in the
  pattern \<open>volume_V/section_S/page_P.json\<close>, each as often as it was discovered; paths
  that do not match are left out. It is non-decreasing in \<open>(volume, section, page)\<close>,
  compared by volume, then section, then page, for the numbers as \<open>Number\<close> reads them,
  that is, rounded to doubles. When the numbers of every path are below \<open>2\<^sup>5\<^sup>3\<close> it is
  non-decreasing in the integer triple.
\<close>

theorem sortedPaths_exact_and_ordered:
  "mset (sortedPaths filePaths) = mset (filter (\<lambda>p. \<exists>t. exact_triple p t) filePaths) \<and>
   sorted_wrt read_path_le (sortedPaths filePaths) \<and>
   (list_all in_exact_range filePaths \<longrightarrow> sorted_wrt exact_path_le (sortedPaths filePaths))"
proof (intro conjI impI)
  have "(\<lambda>p. path_match p \<noteq> None) = (\<lambda>p. \<exists>t. exact_triple p t)"
    using path_match_None_iff by auto
  then show "mset (sortedPaths filePaths) = mset (filter (\<lambda>p. \<exists>t. exact_triple p t) filePaths)"
    using sortedPaths_mset [of filePaths] by simp
  have "sorted_wrt path_le (sortedPaths filePaths)" by (rule sortedPaths_sorted)
  then show read: "sorted_wrt read_path_le (sortedPaths filePaths)"
    by (rule sorted_wrt_mono_rel [rotated]) (simp add: path_le_read)
  assume range: "list_all in_exact_range filePaths"
  show "sorted_wrt exact_path_le (sortedPaths filePaths)"
    using read
  proof (rule sorted_wrt_mono_rel [rotated])
    fix p q
    assume "p \<in> set (sortedPaths filePaths)" "q \<in> set (sortedPaths filePaths)"
      and le: "read_path_le p q"
    with set_sortedPaths [of filePaths] range
    have rp: "in_exact_range p" and rq: "in_exact_range q"
      by (auto simp: list_all_iff)
    from le obtain a b where a: "exact_triple p a" and b: "exact_triple q b"
      and ab: "triple_le (as_read a) (as_read b)"
      unfolding read_path_le_def by blast
    from rp a have "below_2_53 a" unfolding in_exact_range_def by blast
    then have "as_read a = a" by (rule as_read_exact)
    moreover from rq b have "below_2_53 b" unfolding in_exact_range_def by blast
    then have "as_read b = b" by (rule as_read_exact)
    ultimately have "triple_le a b" using ab by simp
    with a b show "exact_path_le p q"
      unfolding exact_path_le_def by blast
  qed
qed

theorem sortedPaths_exact_and_ordered_witness:
  "list_all in_exact_range
     [''/b/volume_1/section_2/page_1.json'', ''/b/notes.json'',
      ''/b/volume_1/section_1/page_2.json'', ''/b/volume_2/section_1/page_1.json''] \<and>
   sorted_wrt exact_path_le
     (sortedPaths
        [''/b/volume_1/section_2/page_1.json'', ''/b/notes.json'',
         ''/b/volume_1/section_1/page_2.json'', ''/b/volume_2/section_1/page_1.json''])"
proof -
  have ds: "digit_string ''1''" "digit_string ''2''"
    by (simp_all add: digit_string_def is_digit_def)
  have 1: "in_exact_range ''/b/volume_1/section_2/page_1.json''"
    by (rule in_exact_range_path [where pre = "''/b/''" and ?d1.0 = "''1''" and ?d2.0 = "''2''"
          and ?d3.0 = "''1''"]) (simp_all add: pattern_suffix_def ds decimal_def digit_val_def)
  have 2: "in_exact_range ''/b/notes.json''"
    by (rule in_exact_range_no_match) code_simp
  have 3: "in_exact_range ''/b/volume_1/section_1/page_2.json''"
    by (rule in_exact_range_path [where pre = "''/b/''" and ?d1.0 = "''1''" and ?d2.0 = "''1''"
          and ?d3.0 = "''2''"]) (simp_all add: pattern_suffix_def ds decimal_def digit_val_def)
  have 4: "in_exact_range ''/b/volume_2/section_1/page_1.json''"
    by (rule in_exact_range_path [where pre = "''/b/''" and ?d1.0 = "''2''" and ?d2.0 = "''1''"
          and ?d3.0 = "''1''"]) (simp_all add: pattern_suffix_def ds decimal_def digit_val_def)
  from 1 2 3 4 have range: "list_all in_exact_range
     [''/b/volume_1/section_2/page_1.json'', ''/b/notes.json'',
      ''/b/volume_1/section_1/page_2.json'', ''/b/volume_2/section_1/page_1.json'']"
    by simp
  from range sortedPaths_exact_and_ordered [THEN conjunct2, THEN conjunct2, THEN mp, OF range]
  show ?thesis by (rule conjI)
qed

text \<open>
  C2 as written fails from \<open>2\<^sup>5\<^sup>3\<close> on. The volumes \<open>9007199254740993\<close> and
  \<open>9007199254740992\<close> are read as the same double and share a group, so the path of the
  larger volume, in section 1, is processed before the path of the smaller one, in
  section 2.
\<close>

theorem rounded_volumes_out_of_order:
  "sortedPaths [''/b/volume_9007199254740992/section_2/page_1.json'',
                ''/b/volume_9007199254740993/section_1/page_1.json'']
   = [''/b/volume_9007199254740993/section_1/page_1.json'',
      ''/b/volume_9007199254740992/section_2/page_1.json''] \<and>
   exact_triple ''/b/volume_9007199254740993/section_1/page_1.json'' (9007199254740993, 1, 1) \<and>
   exact_triple ''/b/volume_9007199254740992/section_2/page_1.json'' (9007199254740992, 2, 1) \<and>
   \<not> triple_le (9007199254740993, 1, 1) (9007199254740992, 2, 1) \<and>
   \<not> sorted_wrt exact_path_le
       (sortedPaths [''/b/volume_9007199254740992/section_2/page_1.json'',
                     ''/b/volume_9007199254740993/section_1/page_1.json''])"
proof -
  let ?A = "''/b/volume_9007199254740993/section_1/page_1.json''"
  let ?B = "''/b/volume_9007199254740992/section_2/page_1.json''"
  have ds: "digit_string ''9007199254740993''" "digit_string ''9007199254740992''"
    "digit_string ''1''" "digit_string ''2''"
    by (simp_all add: digit_string_def is_digit_def)
  have dec: "decimal ''9007199254740993'' = 9007199254740993"
    "decimal ''9007199254740992'' = 9007199254740992" "decimal ''1'' = 1" "decimal ''2'' = 2"
    by (simp_all add: decimal_def digit_val_def)
  have "exact_triple ?A (decimal ''9007199254740993'', decimal ''1'', decimal ''1'')"
    by (rule exact_tripleI [where pre = "''/b/''"]) (simp_all add: pattern_suffix_def ds)
  then have a: "exact_triple ?A (9007199254740993, 1, 1)" by (simp only: dec)
  have "exact_triple ?B (decimal ''9007199254740992'', decimal ''2'', decimal ''1'')"
    by (rule exact_tripleI [where pre = "''/b/''"]) (simp_all add: pattern_suffix_def ds)
  then have b: "exact_triple ?B (9007199254740992, 2, 1)" by (simp only: dec)
  have one: "to_double (Suc 0) = Suc 0" "to_double 2 = 2" by (simp_all add: to_double_exact)
  from a have pa: "path_match ?A = Some (9007199254740992, 1, 1)"
    unfolding path_match_exact
    by (intro exI [of _ "(9007199254740993, 1, 1)"])
       (simp add: as_read_def to_double_2_53_plus_1 one)
  from b have pb: "path_match ?B = Some (9007199254740992, 2, 1)"
    unfolding path_match_exact
    by (intro exI [of _ "(9007199254740992, 2, 1)"])
       (simp add: as_read_def to_double_2_53 one)
  have order: "sortedPaths [?B, ?A] = [?A, ?B]"
    by (simp add: sortedPaths_def groupedFiles_def group_file_def pa pb volume_paths_def
        section_paths_def sorted_keys_def del: path_match.simps)
  have gt: "\<not> triple_le (9007199254740993, 1, 1) (9007199254740992, 2, 1)"
    by (simp add: triple_le_def)
  have "\<not> exact_path_le ?A ?B"
  proof
    assume "exact_path_le ?A ?B"
    then obtain x y where "exact_triple ?A x" "exact_triple ?B y" "triple_le x y"
      unfolding exact_path_le_def by blast
    with a b have "triple_le (9007199254740993, 1, 1) (9007199254740992, 2, 1)"
      using exact_triple_unique by blast
    with gt show False ..
  qed
  then have "\<not> sorted_wrt exact_path_le (sortedPaths [?B, ?A])"
    by (simp only: order) simp
  with order a b gt show ?thesis by (intro conjI)
qed

lemma sortedPaths_example:
  "sortedPaths [''/b/volume_1/section_2/page_1.json'', ''/b/notes.json'',
                ''/b/volume_1/section_1/page_2.json'', ''/b/volume_2/section_1/page_1.json'']
   = [''/b/volume_1/section_1/page_2.json'', ''/b/volume_1/section_2/page_1.json'',
      ''/b/volume_2/section_1/page_1.json'']"
  by code_simp

section \<open>Merging in the primary extraction\<close>



text \<open>
  The example of the specification, run through the whole driver: the same explicit
  identity on pages 3 and 7 with two texts, and again on page 9 with the first text.
\<close>

lemma main_merge_example:
  "main example_files
     [''/b/volume_1/section_1/page_9.json'', ''/b/volume_1/section_1/page_7.json'',
      ''/b/volume_1/section_1/page_3.json'']
   = Inr \<lparr> hadithsById =
             [(''42'', \<lparr> vol = 1, sec = 1, pages = [3, 7, 9], id' = ''42'', title = ''T1'',
                        ghael = ''m'', sanad = ''s m'', parts = [''A'', ''B''] \<rparr>)],
           currentTitle = ''T2'' \<rparr>"
  by code_simp

text \<open>
  The invariants of the data model hold of every record of a run that ends without error:
  identities are unique, and no record has a page or a text variant twice.
\<close>

lemma well_formed_update:
  assumes "well_formed byId" and "well_formed_hadith k h"
  shows "well_formed (AList.update k h byId)"
  unfolding well_formed_def
proof (intro conjI allI impI)
  show "distinct (map fst (AList.update k h byId))"
    using assms(1) by (simp add: well_formed_def distinct_update)
next
  fix k' h' assume "(k', h') \<in> set (AList.update k h byId)"
  then have "(k', h') \<in> set byId \<or> (k' = k \<and> h' = h)" by (rule set_update_cases)
  with assms show "well_formed_hadith k' h'" by (auto simp: well_formed_def)
qed

lemma well_formed_merge:
  "well_formed_hadith k h \<Longrightarrow> well_formed_hadith k (merge_hadith page c h)"
  by (simp add: well_formed_hadith_def merge_hadith_def)

lemma each_hadith_well_formed:
  assumes "well_formed byId" and "each_hadith f v s p t byId el = Inr byId'"
  shows "well_formed byId'"
proof (cases "js_get byId (revayatIndex f el)")
  case (Own h)
  then have "(revayatIndex f el, h) \<in> set byId"
    by (auto simp: js_get_def split: option.splits if_splits dest: map_of_SomeD)
  with assms(1) have "well_formed_hadith (revayatIndex f el) h"
    by (simp add: well_formed_def)
  then have "well_formed_hadith (revayatIndex f el) (merge_hadith p (trim (content_text el)) h)"
    by (rule well_formed_merge)
  with assms Own show ?thesis
    by (auto simp: each_hadith_def Let_def intro: well_formed_update)
next
  case Inherited
  with assms(2) show ?thesis by (simp add: each_hadith_def Let_def)
next
  case Undefined
  have "well_formed_hadith (revayatIndex f el)
          (new_hadith v s p (revayatIndex f el) t (trim (content_text el)) el)"
    by (simp add: well_formed_hadith_def new_hadith_def)
  with assms Undefined show ?thesis
    by (auto simp: each_hadith_def Let_def intro: well_formed_update)
qed

lemma primary_page_well_formed:
  assumes "well_formed (hadithsById st)" and "primary_page fs st filePath = Inr st'"
  shows "well_formed (hadithsById st')"
proof -
  have parag: "well_formed (hadithsById s')"
    if "well_formed (hadithsById s)" and "primary_parag f v n p s parag = Inr s'"
    for f v n p s parag s'
  proof -
    from that(2) obtain t byId' where
      run: "for_each (each_hadith f v n p t) (hadithsById s) (hadith_elements parag) = Inr byId'"
      and eq: "hadithsById s' = byId'"
      by (auto simp: primary_parag_def Let_def split: sum.splits)
    have "well_formed byId'"
      using each_hadith_well_formed that(1) run
      by (rule for_each_preserves [where P = well_formed])
    with eq show ?thesis by simp
  qed
  show ?thesis
  proof (cases "\<exists>ps v n p. fs filePath = ParagList ps \<and> path_match filePath = Some (v, n, p)")
    case True
    then obtain ps v n p where "fs filePath = ParagList ps" "path_match filePath = Some (v, n, p)"
      by blast
    with assms(2) have "for_each (primary_parag filePath v n p) st ps = Inr st'"
      by (simp add: primary_page_def)
    with parag assms(1) show ?thesis
      by (rule for_each_preserves [where P = "\<lambda>s. well_formed (hadithsById s)"])
  next
    case False
    with assms(2) have "st' = st"
      by (auto simp: primary_page_def split: page_json.splits option.splits)
    with assms(1) show ?thesis by simp
  qed
qed

lemma fallback_parag_well_formed:
  assumes "well_formed byId"
  shows "well_formed (fallback_parag v s p t byId parag)"
proof (cases "\<exists>g c. p_match parag = Some (g, c) \<and> js_get byId (fallback_id parag) = Undefined")
  case True
  then obtain g c where "p_match parag = Some (g, c)"
    "js_get byId (fallback_id parag) = Undefined" by blast
  then have "fallback_parag v s p t byId parag = AList.update (fallback_id parag)
        \<lparr> vol = v, sec = s, pages = [p], id' = fallback_id parag, title = t,
          ghael = trim g, sanad = [], parts = [trim c] \<rparr> byId"
    by (simp add: fallback_parag_def Let_def)
  with assms show ?thesis
    by (simp add: well_formed_update well_formed_hadith_def)
next
  case False
  then have "fallback_parag v s p t byId parag = byId"
    by (auto simp: fallback_parag_def Let_def split: option.splits js_prop.splits)
  with assms show ?thesis by simp
qed

lemma foldl_fallback_parag_well_formed:
  "well_formed byId \<Longrightarrow> well_formed (foldl (fallback_parag v s p t) byId ps)"
  by (induction ps arbitrary: byId) (simp_all add: fallback_parag_well_formed)

lemma fallback_page_well_formed:
  assumes "well_formed (hadithsById st)" and "fallback_page fs st filePath = Inr st'"
  shows "well_formed (hadithsById st')"
  using assms
  by (auto simp: fallback_page_def foldl_fallback_parag_well_formed
      split: page_json.splits option.splits)

lemma main_well_formed:
  assumes "main fs filePaths = Inr st"
  shows "well_formed (hadithsById st)"
proof -
  from assms obtain st0 where
    p: "for_each (primary_page fs) initial_state (sortedPaths filePaths) = Inr st0"
    and rest: "st = st0 \<or> for_each (fallback_page fs) st0 (sortedPaths filePaths) = Inr st"
    by (auto simp: main_def primary_def fallback_def Let_def split: sum.splits if_splits)
  have "well_formed (hadithsById initial_state)"
    by (simp add: well_formed_def initial_state_def)
  with primary_page_well_formed have 0: "well_formed (hadithsById st0)"
    using p by (rule for_each_preserves [where P = "\<lambda>s. well_formed (hadithsById s)"])
  from rest show ?thesis
  proof
    assume "st = st0"
    with 0 show ?thesis by simp
  next
    assume "for_each (fallback_page fs) st0 (sortedPaths filePaths) = Inr st"
    with fallback_page_well_formed 0 show ?thesis
      by (rule for_each_preserves [where P = "\<lambda>s. well_formed (hadithsById s)"])
  qed
qed

section \<open>Fields that merging leaves alone\<close>

lemma each_hadith_keeps:
  assumes "keeps_fixed_fields k h byId"
    and "each_hadith filePath volume section page current byId el = Inr byId'"
  shows "keeps_fixed_fields k h byId'"
proof -
  from assms(1) obtain h1 where h1: "map_of byId k = Some h1" and f1: "same_fixed_fields h h1"
    by (auto simp: keeps_fixed_fields_def split: option.splits)
  let ?key = "revayatIndex filePath el"
  show ?thesis
  proof (cases "?key = k")
    case True
    with h1 have "js_get byId ?key = Own h1" by (simp add: js_get_Own)
    with assms(2) have "byId' = AList.update k (merge_hadith page (trim (content_text el)) h1) byId"
      using True by (simp add: each_hadith_def Let_def)
    then show ?thesis
      using f1 by (simp add: keeps_fixed_fields_def update_conv' merge_hadith_def
          same_fixed_fields_def)
  next
    case False
    from assms(2) obtain v where "byId' = AList.update ?key v byId"
      by (auto simp: each_hadith_def Let_def split: js_prop.splits)
    with False h1 f1 show ?thesis
      by (simp add: keeps_fixed_fields_def update_conv')
  qed
qed

lemma primary_parag_keeps:
  assumes "keeps_fixed_fields k h (hadithsById st)"
    and "primary_parag filePath volume section page st parag = Inr st'"
  shows "keeps_fixed_fields k h (hadithsById st')"
proof -
  define current where
    "current = (if trim (heading_text parag) \<noteq> [] then trim (heading_text parag)
                else currentTitle st)"
  from assms(2) obtain byId' where
    run: "for_each (each_hadith filePath volume section page current) (hadithsById st)
            (hadith_elements parag) = Inr byId'"
    and st': "hadithsById st' = byId'"
    by (auto simp: primary_parag_def Let_def current_def split: sum.splits)
  have "keeps_fixed_fields k h byId'"
    using each_hadith_keeps assms(1) run
    by (rule for_each_preserves [where P = "keeps_fixed_fields k h"])
  with st' show ?thesis by simp
qed

lemma primary_page_keeps:
  assumes "keeps_fixed_fields k h (hadithsById st)"
    and "primary_page fs st filePath = Inr st'"
  shows "keeps_fixed_fields k h (hadithsById st')"
proof (cases "fs filePath")
  case (ParagList paragList)
  show ?thesis
  proof (cases "path_match filePath")
    case None
    with ParagList assms show ?thesis by (simp add: primary_page_def)
  next
    case (Some m)
    obtain v s p where m: "m = (v, s, p)" by (cases m)
    from assms(2) ParagList Some m
    have run: "for_each (primary_parag filePath v s p) st paragList = Inr st'"
      by (simp add: primary_page_def)
    show ?thesis
      using primary_parag_keeps assms(1) run
      by (rule for_each_preserves [where P = "\<lambda>s. keeps_fixed_fields k h (hadithsById s)"])
  qed
qed (use assms in \<open>auto simp: primary_page_def\<close>)

text \<open>
  C6. A record that exists keeps its volume, section, title, attribution text, chain text
  and identity through everything the primary extraction does afterwards: later
  occurrences of the identity change only the pages and the text variants.
\<close>

theorem merges_keep_first_occurrence_fields:
  assumes "map_of (hadithsById st) k = Some h"
    and "for_each (primary_page fs) st paths = Inr st'"
  shows "\<exists>h'. map_of (hadithsById st') k = Some h' \<and>
           vol h' = vol h \<and> sec h' = sec h \<and> title h' = title h \<and>
           ghael h' = ghael h \<and> sanad h' = sanad h \<and> id' h' = id' h"
proof -
  have "keeps_fixed_fields k h (hadithsById st)"
    using assms(1) by (simp add: keeps_fixed_fields_def same_fixed_fields_def)
  have "keeps_fixed_fields k h (hadithsById st')"
    using primary_page_keeps \<open>keeps_fixed_fields k h (hadithsById st)\<close> assms(2)
    by (rule for_each_preserves [where P = "\<lambda>s. keeps_fixed_fields k h (hadithsById s)"])
  then show ?thesis
    by (auto simp: keeps_fixed_fields_def same_fixed_fields_def split: option.splits)
qed

theorem merges_keep_first_occurrence_fields_witness:
  "map_of (hadithsById \<lparr> hadithsById = [(''42'', example_hadith)], currentTitle = ''T1'' \<rparr>) ''42''
     = Some example_hadith \<and>
   for_each (primary_page example_files)
     \<lparr> hadithsById = [(''42'', example_hadith)], currentTitle = ''T1'' \<rparr>
     [''/b/volume_1/section_1/page_7.json'', ''/b/volume_1/section_1/page_9.json'']
     = Inr \<lparr> hadithsById =
               [(''42'', \<lparr> vol = 1, sec = 1, pages = [3, 7, 9], id' = ''42'', title = ''T1'',
                          ghael = ''m'', sanad = ''s m'', parts = [''A'', ''B''] \<rparr>)],
             currentTitle = ''T2'' \<rparr> \<and>
   (\<exists>h'. map_of (hadithsById \<lparr> hadithsById =
               [(''42'', \<lparr> vol = 1, sec = 1, pages = [3, 7, 9], id' = ''42'', title = ''T1'',
                          ghael = ''m'', sanad = ''s m'', parts = [''A'', ''B''] \<rparr>)],
             currentTitle = ''T2'' \<rparr>) ''42'' = Some h' \<and>
      vol h' = vol example_hadith \<and> sec h' = sec example_hadith \<and>
      title h' = title example_hadith \<and> ghael h' = ghael example_hadith \<and>
      sanad h' = sanad example_hadith \<and> id' h' = id' example_hadith)"
proof -
  have h: "map_of (hadithsById \<lparr> hadithsById = [(''42'', example_hadith)],
      currentTitle = ''T1'' \<rparr>) ''42'' = Some example_hadith"
    by simp
  have run: "for_each (primary_page example_files)
     \<lparr> hadithsById = [(''42'', example_hadith)], currentTitle = ''T1'' \<rparr>
     [''/b/volume_1/section_1/page_7.json'', ''/b/volume_1/section_1/page_9.json'']
     = Inr \<lparr> hadithsById =
               [(''42'', \<lparr> vol = 1, sec = 1, pages = [3, 7, 9], id' = ''42'', title = ''T1'',
                          ghael = ''m'', sanad = ''s m'', parts = [''A'', ''B''] \<rparr>)],
             currentTitle = ''T2'' \<rparr>"
    by code_simp
  show ?thesis
    by (rule conjI [OF h conjI [OF run merges_keep_first_occurrence_fields [OF h run]]])
qed

section \<open>Pages that cannot be read\<close>

text \<open>
  C3, as far as it holds. A page whose \<open>paragList\<close> is missing is skipped: both passes
  go on as if the page were not in the list. A page that is no JSON, or that lacks
  \<open>data\<close> or its first element, ends the run with an error whenever it is among the
  paths to process.
\<close>

theorem missing_paragList_skipped_other_failures_fatal:
  "(fs p = NoParagList \<longrightarrow>
      for_each (primary_page fs) st (xs @ p # ys) = for_each (primary_page fs) st (xs @ ys) \<and>
      for_each (fallback_page fs) st (xs @ p # ys) = for_each (fallback_page fs) st (xs @ ys)) \<and>
   (structural_failure (fs p) \<and> p \<in> set (sortedPaths filePaths) \<longrightarrow>
      (\<exists>e. main fs filePaths = Inl e))"
proof (intro conjI impI)
  assume np: "fs p = NoParagList"
  show "for_each (primary_page fs) st (xs @ p # ys) = for_each (primary_page fs) st (xs @ ys)"
    by (rule for_each_skip) (simp add: primary_page_def np)
  show "for_each (fallback_page fs) st (xs @ p # ys) = for_each (fallback_page fs) st (xs @ ys)"
    by (rule for_each_skip) (simp add: fallback_page_def np)
next
  assume a: "structural_failure (fs p) \<and> p \<in> set (sortedPaths filePaths)"
  then have "\<And>s. \<exists>e. primary_page fs s p = Inl e"
    by (auto simp: structural_failure_def primary_page_def)
  with a have "\<exists>e. for_each (primary_page fs) initial_state (sortedPaths filePaths) = Inl e"
    by (intro for_each_throws) auto
  then show "\<exists>e. main fs filePaths = Inl e"
    by (auto simp: main_def primary_def Let_def)
qed

theorem missing_paragList_skipped_witness:
  "example_files ''/b/volume_1/section_1/page_5.json'' = NoParagList \<and>
   for_each (primary_page example_files) initial_state
     ([''/b/volume_1/section_1/page_3.json''] @ ''/b/volume_1/section_1/page_5.json''
        # [''/b/volume_1/section_1/page_7.json''])
   = for_each (primary_page example_files) initial_state
       ([''/b/volume_1/section_1/page_3.json''] @ [''/b/volume_1/section_1/page_7.json'']) \<and>
   structural_failure (broken_files ''/b/volume_1/section_1/page_1.json'') \<and>
   ''/b/volume_1/section_1/page_1.json'' \<in> set (sortedPaths
      [''/b/volume_1/section_1/page_1.json'', ''/b/volume_1/section_1/page_3.json'']) \<and>
   (\<exists>e. main broken_files
      [''/b/volume_1/section_1/page_1.json'', ''/b/volume_1/section_1/page_3.json''] = Inl e)"
proof -
  have a: "example_files ''/b/volume_1/section_1/page_5.json'' = NoParagList"
    by (simp add: example_files_def)
  have b: "structural_failure (broken_files ''/b/volume_1/section_1/page_1.json'')"
    by (simp add: structural_failure_def broken_files_def)
  have c: "''/b/volume_1/section_1/page_1.json'' \<in> set (sortedPaths
      [''/b/volume_1/section_1/page_1.json'', ''/b/volume_1/section_1/page_3.json''])"
    by code_simp
  note skip = missing_paragList_skipped_other_failures_fatal
    [where fs = example_files and p = "''/b/volume_1/section_1/page_5.json''",
     THEN conjunct1, THEN mp, OF a, THEN conjunct1]
  note fatal = missing_paragList_skipped_other_failures_fatal
    [where fs = broken_files and p = "''/b/volume_1/section_1/page_1.json''",
     THEN conjunct2, THEN mp, OF conjI [OF b c]]
  show ?thesis
    by (intro conjI a b c skip fatal)
qed

text \<open>
  Against C3 as it is stated: a page that is no JSON is not skipped. The run ends with
  the error, although the page after it alone would have given a record.
\<close>

theorem unparsable_page_aborts:
  "main broken_files
     [''/b/volume_1/section_1/page_1.json'', ''/b/volume_1/section_1/page_3.json'']
     = Inl SyntaxError \<and>
   main broken_files [''/b/volume_1/section_1/page_3.json'']
     = Inr \<lparr> hadithsById = [(''42'', example_hadith)], currentTitle = ''T1'' \<rparr>"
  by code_simp

section \<open>Collisions in the fallback extraction\<close>

lemma fallback_parag_keeps:
  assumes "map_of byId k = Some h"
  shows "map_of (fallback_parag v s p t byId parag) k = Some h"
proof (cases "p_match parag")
  case None
  with assms show ?thesis by (simp add: fallback_parag_def)
next
  case (Some m)
  obtain g c where m: "m = (g, c)" by (cases m)
  show ?thesis
  proof (cases "js_get byId (fallback_id parag)")
    case Undefined
    then have "map_of byId (fallback_id parag) = None" by (rule js_get_Undefined)
    with assms have "fallback_id parag \<noteq> k" by auto
    with assms Some m Undefined show ?thesis
      by (simp add: fallback_parag_def Let_def update_conv')
  qed (use assms Some m in \<open>simp_all add: fallback_parag_def Let_def\<close>)
qed

lemma foldl_fallback_parag_keeps:
  "map_of byId k = Some h \<Longrightarrow> map_of (foldl (fallback_parag v s p t) byId ps) k = Some h"
  by (induction ps arbitrary: byId) (simp_all add: fallback_parag_keeps)

lemma fallback_page_keeps:
  assumes "map_of (hadithsById st) k = Some h" and "fallback_page fs st filePath = Inr st'"
  shows "map_of (hadithsById st') k = Some h"
  using assms
  by (auto simp: fallback_page_def foldl_fallback_parag_keeps
      split: page_json.splits option.splits)

text \<open>
  C5. In the fallback extraction an identity that has a record keeps it: a paragraph that
  yields the same identity leaves the whole table as it is, and after the rest of the pass
  the record is still the one that was there.
\<close>

theorem fallback_first_wins:
  assumes "map_of (hadithsById st) k = Some h"
  shows "(fallback_id parag = k \<longrightarrow>
            fallback_parag volume section page current (hadithsById st) parag = hadithsById st) \<and>
         (fallback fs paths st = Inr st' \<longrightarrow> map_of (hadithsById st') k = Some h)"
proof (intro conjI impI)
  assume "fallback_id parag = k"
  with assms have "js_get (hadithsById st) (fallback_id parag) = Own h"
    by (simp add: js_get_def)
  then show "fallback_parag volume section page current (hadithsById st) parag = hadithsById st"
    by (simp add: fallback_parag_def Let_def split: option.splits)
next
  assume "fallback fs paths st = Inr st'"
  then have run: "for_each (fallback_page fs) st paths = Inr st'" by (simp add: fallback_def)
  show "map_of (hadithsById st') k = Some h"
    using fallback_page_keeps assms run
    by (rule for_each_preserves [where P = "\<lambda>s. map_of (hadithsById s) k = Some h"])
qed

theorem fallback_first_wins_witness:
  "map_of (hadithsById \<lparr> hadithsById = [(''fallback_1'', fallback_hadith)],
                         currentTitle = ''T2'' \<rparr>) ''fallback_1'' = Some fallback_hadith \<and>
   fallback_id \<lparr> heading_text = '' T2 '', hadith_elements = [],
                 p_match = Some (''a '', '' b''), paragraphId = Some ''1'' \<rparr> = ''fallback_1'' \<and>
   fallback_parag 1 1 7 ''T2''
     (hadithsById \<lparr> hadithsById = [(''fallback_1'', fallback_hadith)], currentTitle = ''T2'' \<rparr>)
     \<lparr> heading_text = '' T2 '', hadith_elements = [],
       p_match = Some (''a '', '' b''), paragraphId = Some ''1'' \<rparr>
   = hadithsById \<lparr> hadithsById = [(''fallback_1'', fallback_hadith)], currentTitle = ''T2'' \<rparr> \<and>
   fallback heading_files [''/b/volume_1/section_1/page_7.json'']
     \<lparr> hadithsById = [(''fallback_1'', fallback_hadith)], currentTitle = ''T2'' \<rparr>
   = Inr \<lparr> hadithsById = [(''fallback_1'', fallback_hadith)], currentTitle = ''T2'' \<rparr>"
proof -
  let ?st = "\<lparr> hadithsById = [(''fallback_1'', fallback_hadith)], currentTitle = ''T2'' \<rparr>"
  let ?parag = "\<lparr> heading_text = '' T2 '', hadith_elements = [],
                 p_match = Some (''a '', '' b''), paragraphId = Some ''1'' \<rparr>"
  have h: "map_of (hadithsById ?st) ''fallback_1'' = Some fallback_hadith"
    by simp
  have a: "fallback_id ?parag = ''fallback_1''"
    by (simp add: fallback_id_def js_str_def)
  have c: "fallback heading_files [''/b/volume_1/section_1/page_7.json''] ?st = Inr ?st"
    by code_simp
  note same = fallback_first_wins [OF h, where parag = ?parag, THEN conjunct1, THEN mp, OF a]
  show ?thesis
    by (intro conjI h a c same)
qed

section \<open>When the fallback extraction runs\<close>

lemma fallback_id_not_inherited: "fallback_id parag \<notin> set object_prototype_keys"
  by (simp add: fallback_id_def object_prototype_keys_def)

lemma fallback_parag_records_match:
  assumes "p_match parag \<noteq> None"
  shows "map_of (fallback_parag v s p t byId parag) (fallback_id parag) \<noteq> None"
proof -
  from assms obtain g c where m: "p_match parag = Some (g, c)" by (cases "p_match parag") auto
  show ?thesis
  proof (cases "js_get byId (fallback_id parag)")
    case (Own h)
    then have "map_of byId (fallback_id parag) = Some h"
      by (auto simp: js_get_def split: option.splits if_splits)
    with m Own show ?thesis by (simp add: fallback_parag_def Let_def)
  next
    case Inherited
    with fallback_id_not_inherited [of parag] show ?thesis
      by (auto simp: js_get_def split: option.splits)
  next
    case Undefined
    with m show ?thesis by (simp add: fallback_parag_def Let_def update_conv')
  qed
qed

lemma fallback_parag_grows:
  "map_of byId k \<noteq> None \<Longrightarrow> map_of (fallback_parag v s p t byId parag) k \<noteq> None"
  using fallback_parag_keeps [of byId k _ v s p t parag] by auto

lemma foldl_fallback_parag_grows:
  "map_of byId k \<noteq> None \<Longrightarrow> map_of (foldl (fallback_parag v s p t) byId ps) k \<noteq> None"
proof (induction ps arbitrary: byId)
  case Nil
  then show ?case by simp
next
  case (Cons x xs)
  from Cons.prems have "map_of (fallback_parag v s p t byId x) k \<noteq> None"
    by (rule fallback_parag_grows)
  from Cons.IH [OF this] show ?case by simp
qed

lemma foldl_fallback_parag_records_match:
  assumes "parag \<in> set ps" and "p_match parag \<noteq> None"
  shows "map_of (foldl (fallback_parag v s p t) byId ps) (fallback_id parag) \<noteq> None"
  using assms(1)
proof (induction ps arbitrary: byId)
  case Nil
  then show ?case by simp
next
  case (Cons x xs)
  show ?case
  proof (cases "x = parag")
    case True
    have "map_of (fallback_parag v s p t byId parag) (fallback_id parag) \<noteq> None"
      using assms(2) by (rule fallback_parag_records_match)
    then show ?thesis
      using True by (simp add: foldl_fallback_parag_grows)
  next
    case False
    with Cons.prems have "parag \<in> set xs" by simp
    from Cons.IH [OF this] show ?thesis by simp
  qed
qed

lemma fallback_page_grows:
  assumes "map_of (hadithsById st) k \<noteq> None" and "fallback_page fs st filePath = Inr st'"
  shows "map_of (hadithsById st') k \<noteq> None"
  using assms fallback_page_keeps [of st k _ fs filePath st'] by auto

lemma fallback_page_records_match:
  assumes "fallback_page fs st filePath = Inr st'"
    and "fs filePath = ParagList ps" and "path_match filePath \<noteq> None"
    and "parag \<in> set ps" and "p_match parag \<noteq> None"
  shows "map_of (hadithsById st') (fallback_id parag) \<noteq> None"
proof -
  from assms(3) obtain v s p where "path_match filePath = Some (v, s, p)"
    by (cases "path_match filePath") auto
  with assms(1,2) have "hadithsById st' =
      foldl (fallback_parag v s p (currentTitle st)) (hadithsById st) ps"
    by (auto simp: fallback_page_def)
  with foldl_fallback_parag_records_match [OF assms(4,5)] show ?thesis by simp
qed

lemma fallback_records_every_match:
  assumes "for_each (fallback_page fs) st paths = Inr st'"
    and "filePath \<in> set paths"
    and "fs filePath = ParagList ps" and "path_match filePath \<noteq> None"
    and "parag \<in> set ps" and "p_match parag \<noteq> None"
  shows "map_of (hadithsById st') (fallback_id parag) \<noteq> None"
  using assms(1,2)
proof (induction paths arbitrary: st)
  case Nil
  then show ?case by simp
next
  case (Cons x xs)
  from Cons.prems(1) obtain s1 where 1: "fallback_page fs st x = Inr s1"
    and 2: "for_each (fallback_page fs) s1 xs = Inr st'"
    by (auto split: sum.splits)
  show ?case
  proof (cases "filePath \<in> set xs")
    case True
    from Cons.IH [OF 2 True] show ?thesis .
  next
    case False
    with Cons.prems(2) have "x = filePath" by simp
    with 1 have "fallback_page fs st filePath = Inr s1" by simp
    then have "map_of (hadithsById s1) (fallback_id parag) \<noteq> None"
      using assms(3-6) by (rule fallback_page_records_match)
    with fallback_page_grows show ?thesis
      using 2 by (rule for_each_preserves
          [where P = "\<lambda>s. map_of (hadithsById s) (fallback_id parag) \<noteq> None"])
  qed
qed

lemma sortedPaths_match:
  assumes "p \<in> set (sortedPaths filePaths)"
  shows "path_match p \<noteq> None"
proof -
  from assms have "p \<in># mset (sortedPaths filePaths)" by simp
  then have "p \<in># mset (filter (\<lambda>p. path_match p \<noteq> None) filePaths)"
    by (simp only: sortedPaths_mset)
  then show ?thesis by simp
qed

text \<open>
  C4. After a primary pass that ends without error, the driver runs the fallback pass if
  and only if the primary pass left no record. If it left one, the result of the driver is
  the state of the primary pass, whatever the fallback pattern would match; if it left
  none, every paragraph of the run that the pattern matches has a record in the result.
\<close>

theorem fallback_iff_primary_empty:
  assumes "primary fs (sortedPaths filePaths) = Inr st"
  shows "main fs filePaths =
           (if hadithsById st = [] then fallback fs (sortedPaths filePaths) st else Inr st) \<and>
         (hadithsById st = [] \<and> main fs filePaths = Inr st' \<and>
          fallback_match_on fs (sortedPaths filePaths) parag \<longrightarrow>
            map_of (hadithsById st') (fallback_id parag) \<noteq> None)"
proof (intro conjI impI)
  show m: "main fs filePaths =
           (if hadithsById st = [] then fallback fs (sortedPaths filePaths) st else Inr st)"
    using assms by (simp add: main_def Let_def)
  assume a: "hadithsById st = [] \<and> main fs filePaths = Inr st' \<and>
          fallback_match_on fs (sortedPaths filePaths) parag"
  with m have run: "for_each (fallback_page fs) st (sortedPaths filePaths) = Inr st'"
    by (simp add: fallback_def)
  from a obtain filePath ps where f: "filePath \<in> set (sortedPaths filePaths)"
    "fs filePath = ParagList ps" "parag \<in> set ps" "p_match parag \<noteq> None"
    unfolding fallback_match_on_def by blast
  from f(1) have "path_match filePath \<noteq> None" by (rule sortedPaths_match)
  from fallback_records_every_match [OF run f(1,2) this f(3,4)]
  show "map_of (hadithsById st') (fallback_id parag) \<noteq> None" .
qed

theorem fallback_iff_primary_empty_witness:
  "primary example_files (sortedPaths
      [''/b/volume_1/section_1/page_9.json'', ''/b/volume_1/section_1/page_7.json'',
       ''/b/volume_1/section_1/page_3.json''])
   = Inr \<lparr> hadithsById =
             [(''42'', \<lparr> vol = 1, sec = 1, pages = [3, 7, 9], id' = ''42'', title = ''T1'',
                        ghael = ''m'', sanad = ''s m'', parts = [''A'', ''B''] \<rparr>)],
           currentTitle = ''T2'' \<rparr> \<and>
   main example_files
      [''/b/volume_1/section_1/page_9.json'', ''/b/volume_1/section_1/page_7.json'',
       ''/b/volume_1/section_1/page_3.json'']
   = Inr \<lparr> hadithsById =
             [(''42'', \<lparr> vol = 1, sec = 1, pages = [3, 7, 9], id' = ''42'', title = ''T1'',
                        ghael = ''m'', sanad = ''s m'', parts = [''A'', ''B''] \<rparr>)],
           currentTitle = ''T2'' \<rparr> \<and>
   primary heading_files (sortedPaths [''/b/volume_1/section_1/page_3.json''])
   = Inr \<lparr> hadithsById = [], currentTitle = ''T1'' \<rparr> \<and>
   main heading_files [''/b/volume_1/section_1/page_3.json'']
   = Inr \<lparr> hadithsById = [(''fallback_1'', fallback_hadith \<lparr> title := ''T1'' \<rparr>)],
           currentTitle = ''T1'' \<rparr> \<and>
   fallback_match_on heading_files (sortedPaths [''/b/volume_1/section_1/page_3.json''])
     \<lparr> heading_text = ''T1'', hadith_elements = [], p_match = Some (''a '', '' b''),
       paragraphId = Some ''1'' \<rparr> \<and>
   map_of (hadithsById \<lparr> hadithsById = [(''fallback_1'', fallback_hadith \<lparr> title := ''T1'' \<rparr>)],
                         currentTitle = ''T1'' \<rparr>)
     (fallback_id \<lparr> heading_text = ''T1'', hadith_elements = [],
                    p_match = Some (''a '', '' b''), paragraphId = Some ''1'' \<rparr>) \<noteq> None"
proof -
  let ?st = "\<lparr> hadithsById =
             [(''42'', \<lparr> vol = 1, sec = 1, pages = [3, 7, 9], id' = ''42'', title = ''T1'',
                        ghael = ''m'', sanad = ''s m'', parts = [''A'', ''B''] \<rparr>)],
           currentTitle = ''T2'' \<rparr>"
  let ?st' = "\<lparr> hadithsById = [(''fallback_1'', fallback_hadith \<lparr> title := ''T1'' \<rparr>)],
           currentTitle = ''T1'' \<rparr>"
  let ?parag = "\<lparr> heading_text = ''T1'', hadith_elements = [], p_match = Some (''a '', '' b''),
       paragraphId = Some ''1'' \<rparr>"
  have p: "primary example_files (sortedPaths
      [''/b/volume_1/section_1/page_9.json'', ''/b/volume_1/section_1/page_7.json'',
       ''/b/volume_1/section_1/page_3.json'']) = Inr ?st"
    by code_simp
  from fallback_iff_primary_empty [OF p, THEN conjunct1] have m: "main example_files
      [''/b/volume_1/section_1/page_9.json'', ''/b/volume_1/section_1/page_7.json'',
       ''/b/volume_1/section_1/page_3.json''] = Inr ?st"
    by simp
  have q: "primary heading_files (sortedPaths [''/b/volume_1/section_1/page_3.json''])
      = Inr \<lparr> hadithsById = [], currentTitle = ''T1'' \<rparr>"
    by code_simp
  have e: "hadithsById \<lparr> hadithsById = [], currentTitle = ''T1'' \<rparr> = []"
    by simp
  have n: "main heading_files [''/b/volume_1/section_1/page_3.json''] = Inr ?st'"
    by code_simp
  have sp: "sortedPaths [''/b/volume_1/section_1/page_3.json'']
            = [''/b/volume_1/section_1/page_3.json'']"
    by code_simp
  have f: "fallback_match_on heading_files (sortedPaths [''/b/volume_1/section_1/page_3.json''])
      ?parag"
    unfolding fallback_match_on_def sp
    by (rule exI [of _ "''/b/volume_1/section_1/page_3.json''"], rule exI [of _ "[?parag]"])
       (simp add: heading_files_def example_page_def)
  note r = fallback_iff_primary_empty [OF q, where st' = ?st' and parag = ?parag,
      THEN conjunct2, THEN mp, OF conjI [OF e conjI [OF n f]]]
  show ?thesis
    by (intro conjI p m q n f r)
qed

section \<open>Synthesized identities\<close>

lemma revayatIndex_gen: "lacks_index el \<Longrightarrow> revayatIndex f el = gen_id f (closest_p_id el)"
  by (auto simp: lacks_index_def revayatIndex_def)

lemma gen_id_not_inherited: "gen_id f p \<notin> set object_prototype_keys"
  by (simp add: gen_id_def object_prototype_keys_def)

lemma layout_not_prefix:
  assumes "in_layout root f1" and "in_layout root f2"
  shows "\<not> prefix (f1 @ ''_'') f2"
proof
  assume "prefix (f1 @ ''_'') f2"
  then obtain z where z: "f2 = (f1 @ ''_'') @ z" by (auto simp: prefix_def)
  from assms obtain d1 d2 d3 e1 e2 e3 where
    f1: "f1 = root @ ''/'' @ pattern_suffix d1 d2 d3"
    and f2: "f2 = root @ ''/'' @ pattern_suffix e1 e2 e3"
    and d: "list_all is_digit d1" "list_all is_digit d2" "list_all is_digit d3"
    and e: "list_all is_digit e1" "list_all is_digit e2" "list_all is_digit e3"
    unfolding in_layout_def digit_string_def by blast
  have sl: "\<not> is_digit CHR ''/''" and dot: "\<not> is_digit CHR ''.''"
    by (simp_all add: is_digit_def)
  from z f1 f2 have 1: "e1 @ CHR ''/'' # (''section_'' @ e2 @ ''/page_'' @ e3 @ ''.json'')
      = d1 @ CHR ''/'' # (''section_'' @ d2 @ ''/page_'' @ d3 @ ''.json_'' @ z)"
    by (simp add: pattern_suffix_def)
  from digit_run_unique [OF 1 e(1) d(1) sl sl]
  have 2: "e2 @ CHR ''/'' # (''page_'' @ e3 @ ''.json'')
      = d2 @ CHR ''/'' # (''page_'' @ d3 @ ''.json_'' @ z)"
    by simp
  from digit_run_unique [OF 2 e(2) d(2) sl sl]
  have 3: "e3 @ CHR ''.'' # ''json'' = d3 @ CHR ''.'' # (''json_'' @ z)"
    by simp
  from digit_run_unique [OF 3 e(3) d(3) dot dot] show False by simp
qed

lemma in_layout_apart: "in_layout root f1 \<Longrightarrow> in_layout root f2 \<Longrightarrow> apart f1 f2"
  by (simp add: apart_def layout_not_prefix)

lemma gen_id_collision:
  assumes "gen_id f1 p1 = gen_id f2 p2" and "js_str p1 \<noteq> js_str p2"
  shows "prefix (f1 @ ''_'') f2 \<or> prefix (f2 @ ''_'') f1"
proof -
  from assms(1) have "f1 @ CHR ''_'' # js_str p1 = f2 @ CHR ''_'' # js_str p2"
    by (simp add: gen_id_def)
  then consider us where "f1 = f2 @ us" "us @ CHR ''_'' # js_str p1 = CHR ''_'' # js_str p2"
    | us where "f1 @ us = f2" "CHR ''_'' # js_str p1 = us @ CHR ''_'' # js_str p2"
    by (auto simp: append_eq_append_conv2)
  then show ?thesis
  proof cases
    case 1
    with assms(2) obtain r where "us = CHR ''_'' # r" by (cases us) auto
    with 1 have "f1 = (f2 @ ''_'') @ r" by simp
    then show ?thesis unfolding prefix_def by blast
  next
    case 2
    with assms(2) obtain r where "us = CHR ''_'' # r" by (cases us) auto
    with 2 have "f2 = (f1 @ ''_'') @ r" by simp
    then show ?thesis unfolding prefix_def by blast
  qed
qed

lemma each_hadith_gen:
  assumes "lacks_index el"
  shows "\<exists>byId' h. each_hadith f v s p t byId el = Inr byId' \<and>
           map_of byId' (revayatIndex f el) = Some h \<and>
           (\<forall>k. k \<noteq> revayatIndex f el \<longrightarrow> map_of byId' k = map_of byId k)"
proof -
  have "js_get byId (revayatIndex f el) \<noteq> Inherited"
    using gen_id_not_inherited [of f "closest_p_id el"] assms
    by (auto simp: js_get_def revayatIndex_gen split: option.splits)
  then show ?thesis
    by (cases "js_get byId (revayatIndex f el)")
       (auto simp: each_hadith_def Let_def update_conv')
qed

text \<open>
  C7, as far as it holds. Two quotation elements without index whose paragraph
  identifiers print differently get different identities, and so two records, when their
  two files are in the layout \<open>root/volume_V/section_S/page_P.json\<close> under one root, and
  more generally when neither path, followed by an underscore, begins the other; the
  same file is such a pair. The identifiers themselves may be any strings.
\<close>

theorem synthesized_identities_distinct:
  assumes "lacks_index e1" and "lacks_index e2"
    and "js_str (closest_p_id e1) \<noteq> js_str (closest_p_id e2)"
    and "(in_layout root f1 \<and> in_layout root f2) \<or> apart f1 f2"
  shows "revayatIndex f1 e1 \<noteq> revayatIndex f2 e2 \<and>
         (\<exists>m1 m2 h1 h2.
            each_hadith f1 v1 s1 p1 t1 byId e1 = Inr m1 \<and>
            each_hadith f2 v2 s2 p2 t2 m1 e2 = Inr m2 \<and>
            map_of m1 (revayatIndex f1 e1) = Some h1 \<and>
            map_of m2 (revayatIndex f1 e1) = Some h1 \<and>
            map_of m2 (revayatIndex f2 e2) = Some h2)"
proof -
  from assms(4) have ap: "apart f1 f2" using in_layout_apart by blast
  have ne: "revayatIndex f1 e1 \<noteq> revayatIndex f2 e2"
  proof
    assume "revayatIndex f1 e1 = revayatIndex f2 e2"
    with assms(1,2) have "gen_id f1 (closest_p_id e1) = gen_id f2 (closest_p_id e2)"
      by (simp add: revayatIndex_gen)
    from gen_id_collision [OF this assms(3)] ap show False
      by (simp add: apart_def)
  qed
  from each_hadith_gen [OF assms(1), of f1 v1 s1 p1 t1 byId] obtain m1 h1 where
    1: "each_hadith f1 v1 s1 p1 t1 byId e1 = Inr m1"
    and h1: "map_of m1 (revayatIndex f1 e1) = Some h1" by blast
  from each_hadith_gen [OF assms(2), of f2 v2 s2 p2 t2 m1] obtain m2 h2 where
    2: "each_hadith f2 v2 s2 p2 t2 m1 e2 = Inr m2"
    and h2: "map_of m2 (revayatIndex f2 e2) = Some h2"
    and others: "\<forall>k. k \<noteq> revayatIndex f2 e2 \<longrightarrow> map_of m2 k = map_of m1 k" by blast
  from others ne h1 have "map_of m2 (revayatIndex f1 e1) = Some h1" by simp
  with ne 1 2 h1 h2 show ?thesis by blast
qed

theorem synthesized_identities_distinct_witness:
  "lacks_index (anonymous_element ''p_1'' ''A'') \<and>
   lacks_index (anonymous_element ''p_2'' ''B'') \<and>
   js_str (closest_p_id (anonymous_element ''p_1'' ''A''))
     \<noteq> js_str (closest_p_id (anonymous_element ''p_2'' ''B'')) \<and>
   in_layout ''/b'' ''/b/volume_1/section_1/page_1.json'' \<and>
   in_layout ''/b'' ''/b/volume_1/section_1/page_2.json'' \<and>
   revayatIndex ''/b/volume_1/section_1/page_1.json'' (anonymous_element ''p_1'' ''A'')
     \<noteq> revayatIndex ''/b/volume_1/section_1/page_2.json'' (anonymous_element ''p_2'' ''B'') \<and>
   (\<exists>m1 m2 h1 h2.
      each_hadith ''/b/volume_1/section_1/page_1.json'' 1 1 1 ''T1'' []
        (anonymous_element ''p_1'' ''A'') = Inr m1 \<and>
      each_hadith ''/b/volume_1/section_1/page_2.json'' 1 1 2 ''T1'' m1
        (anonymous_element ''p_2'' ''B'') = Inr m2 \<and>
      map_of m1 (revayatIndex ''/b/volume_1/section_1/page_1.json''
        (anonymous_element ''p_1'' ''A'')) = Some h1 \<and>
      map_of m2 (revayatIndex ''/b/volume_1/section_1/page_1.json''
        (anonymous_element ''p_1'' ''A'')) = Some h1 \<and>
      map_of m2 (revayatIndex ''/b/volume_1/section_1/page_2.json''
        (anonymous_element ''p_2'' ''B'')) = Some h2)"
proof -
  have a: "lacks_index (anonymous_element ''p_1'' ''A'')"
    by (simp add: lacks_index_def anonymous_element_def)
  have b: "lacks_index (anonymous_element ''p_2'' ''B'')"
    by (simp add: lacks_index_def anonymous_element_def)
  have c: "js_str (closest_p_id (anonymous_element ''p_1'' ''A''))
     \<noteq> js_str (closest_p_id (anonymous_element ''p_2'' ''B''))"
    by (simp add: js_str_def anonymous_element_def)
  have ds: "digit_string ''1''" "digit_string ''2''"
    by (simp_all add: digit_string_def is_digit_def)
  have l1: "in_layout ''/b'' ''/b/volume_1/section_1/page_1.json''"
    unfolding in_layout_def
    by (intro exI [of _ "''1''"] conjI ds) (simp add: pattern_suffix_def)
  have l2: "in_layout ''/b'' ''/b/volume_1/section_1/page_2.json''"
    unfolding in_layout_def
    by (rule exI [of _ "''1''"], rule exI [of _ "''1''"], rule exI [of _ "''2''"])
       (simp add: pattern_suffix_def ds)
  from l1 l2 have d: "(in_layout ''/b'' ''/b/volume_1/section_1/page_1.json'' \<and>
      in_layout ''/b'' ''/b/volume_1/section_1/page_2.json'') \<or>
     apart ''/b/volume_1/section_1/page_1.json'' ''/b/volume_1/section_1/page_2.json''"
    by blast
  note r = synthesized_identities_distinct [OF a b c d, of 1 1 1 "''T1''" "[]" 1 1 2 "''T1''"]
  show ?thesis
    by (intro conjI a b c l1 l2 r [THEN conjunct1] r [THEN conjunct2])
qed

text \<open>
  Against C7 as it is stated: across two files the identities can coincide although the
  paragraph identifiers differ, and the two occurrences are merged into one record.
\<close>

theorem paragraph_identifiers_collide:
  "lacks_index (anonymous_element ''x/volume_1/section_1/page_2.json_c'' ''A'') \<and>
   lacks_index (anonymous_element ''c'' ''B'') \<and>
   closest_p_id (anonymous_element ''x/volume_1/section_1/page_2.json_c'' ''A'')
     \<noteq> closest_p_id (anonymous_element ''c'' ''B'') \<and>
   revayatIndex ''/b/volume_1/section_1/page_1.json''
     (anonymous_element ''x/volume_1/section_1/page_2.json_c'' ''A'')
   = revayatIndex ''/b/volume_1/section_1/page_1.json_x/volume_1/section_1/page_2.json''
       (anonymous_element ''c'' ''B'') \<and>
   main colliding_files
     [''/b/volume_1/section_1/page_1.json'',
      ''/b/volume_1/section_1/page_1.json_x/volume_1/section_1/page_2.json'']
   = Inr \<lparr> hadithsById =
             [(''gen_/b/volume_1/section_1/page_1.json_x/volume_1/section_1/page_2.json_c'',
               \<lparr> vol = 1, sec = 1, pages = [1, 2],
                 id' = ''gen_/b/volume_1/section_1/page_1.json_x/volume_1/section_1/page_2.json_c'',
                 title = ''T1'', ghael = ''m'', sanad = ''s m'', parts = [''A'', ''B''] \<rparr>)],
           currentTitle = ''T2'' \<rparr>"
  by code_simp

section \<open>The retry loop of the translation\<close>

lemma requests_on_error [simp]: "requests (on_error apiKeys status st) = requests st + 1"
  by (simp add: on_error_def Let_def)

lemma requests_on_success [simp]: "requests (on_success isTitle input translated st) = requests st + 1"
  by (simp add: on_success_def)

lemma retry_loop_requests:
  "requests st \<le> requests (snd (retry_loop service apiKeys isTitle input attempt st)) \<and>
   requests (snd (retry_loop service apiKeys isTitle input attempt st))
     \<le> requests st + (length apiKeys * 3 - attempt)"
proof (induction service apiKeys isTitle input attempt st rule: retry_loop.induct)
  case (1 service apiKeys isTitle input attempt st)
  note unfold = retry_loop.simps [of service apiKeys isTitle input attempt st]
  show ?case
  proof (cases "attempt < length apiKeys * 3")
    case False
    then show ?thesis by (simp add: unfold)
  next
    case True
    show ?thesis
    proof (cases "service (requests st) (currentApiKeyIndex st) isTitle input")
      case (Translation translated)
      with True show ?thesis by (simp add: unfold)
    next
      case (ApiError status)
      have "retry_loop service apiKeys isTitle input attempt st =
            retry_loop service apiKeys isTitle input (attempt + 1) (on_error apiKeys status st)"
        using True ApiError by (simp add: unfold)
      with "1.IH" [OF True ApiError] True show ?thesis
        by (simp del: One_nat_def)
    qed
  qed
qed

lemma retry_loop_all_fail:
  assumes "all_fail service isTitle input (requests st) (length apiKeys * 3 - attempt)"
  shows "fst (retry_loop service apiKeys isTitle input attempt st) = input \<and>
         requests (snd (retry_loop service apiKeys isTitle input attempt st))
           = requests st + (length apiKeys * 3 - attempt)"
  using assms
proof (induction service apiKeys isTitle input attempt st rule: retry_loop.induct)
  case (1 service apiKeys isTitle input attempt st)
  note unfold = retry_loop.simps [of service apiKeys isTitle input attempt st]
  show ?case
  proof (cases "attempt < length apiKeys * 3")
    case False
    then show ?thesis by (simp add: unfold)
  next
    case True
    then have "0 < length apiKeys * 3 - attempt" by simp
    with "1.prems" have "\<exists>status. service (requests st + 0) (currentApiKeyIndex st) isTitle input
        = ApiError status"
      unfolding all_fail_def by blast
    then obtain status where
      err: "service (requests st) (currentApiKeyIndex st) isTitle input = ApiError status"
      by auto
    have "all_fail service isTitle input (requests (on_error apiKeys status st))
            (length apiKeys * 3 - (attempt + 1))"
      unfolding all_fail_def
    proof (intro allI impI)
      fix k i assume "k < length apiKeys * 3 - (attempt + 1)"
      then have "Suc k < length apiKeys * 3 - attempt" by simp
      with "1.prems" have "\<exists>status. service (requests st + Suc k) i isTitle input = ApiError status"
        unfolding all_fail_def by blast
      then show "\<exists>e. service (requests (on_error apiKeys status st) + k) i isTitle input
                   = ApiError e"
        by simp
    qed
    moreover have "retry_loop service apiKeys isTitle input attempt st =
          retry_loop service apiKeys isTitle input (attempt + 1) (on_error apiKeys status st)"
      using True err by (simp add: unfold)
    ultimately show ?thesis
      using "1.IH" [OF True err] True by (simp del: One_nat_def)
  qed
qed

lemma translateText_enters:
  "enters_loop st input isTitle \<Longrightarrow>
   translateText service apiKeys input isTitle st =
     (Text (fst (retry_loop service apiKeys isTitle input 0 st)),
      snd (retry_loop service apiKeys isTitle input 0 st))"
  by (auto simp: enters_loop_def translateText_def Let_def split: prod.splits)

lemma translateText_cached:
  "\<not> enters_loop st input isTitle \<Longrightarrow> snd (translateText service apiKeys input isTitle st) = st"
  by (auto simp: enters_loop_def translateText_def Let_def split: js_prop.splits)

text \<open>
  C9. \<open>translateText\<close> sends at most three requests for each key, and when the loop is
  reached and every request fails it returns the text it was given, after exactly that
  many requests.
\<close>

theorem translateText_attempts_bounded:
  "requests st \<le> requests (snd (translateText service apiKeys input isTitle st)) \<and>
   requests (snd (translateText service apiKeys input isTitle st)) - requests st
     \<le> length apiKeys * 3 \<and>
   (enters_loop st input isTitle \<and>
    all_fail service isTitle input (requests st) (length apiKeys * 3) \<longrightarrow>
      fst (translateText service apiKeys input isTitle st) = Text input \<and>
      requests (snd (translateText service apiKeys input isTitle st))
        = requests st + length apiKeys * 3)"
proof (cases "enters_loop st input isTitle")
  case True
  note tt = translateText_enters [OF True, of service apiKeys]
  from retry_loop_requests [of st service apiKeys isTitle input 0]
  have "requests st \<le> requests (snd (translateText service apiKeys input isTitle st))"
    and "requests (snd (translateText service apiKeys input isTitle st)) - requests st
         \<le> length apiKeys * 3"
    by (simp_all add: tt) arith
  moreover have "fst (translateText service apiKeys input isTitle st) = Text input \<and>
      requests (snd (translateText service apiKeys input isTitle st))
        = requests st + length apiKeys * 3"
    if "all_fail service isTitle input (requests st) (length apiKeys * 3)"
    using retry_loop_all_fail [of service isTitle input st apiKeys 0] that by (simp add: tt)
  ultimately show ?thesis by blast
next
  case False
  then show ?thesis by (simp add: translateText_cached)
qed

theorem translateText_attempts_bounded_witness:
  "enters_loop initial_translator ''abc'' False \<and>
   all_fail refusing_service False ''abc'' (requests initial_translator)
     (length [''k1'', ''k2''] * 3) \<and>
   fst (translateText refusing_service [''k1'', ''k2''] ''abc'' False initial_translator)
     = Text ''abc'' \<and>
   requests (snd (translateText refusing_service [''k1'', ''k2''] ''abc'' False
     initial_translator)) = requests initial_translator + length [''k1'', ''k2''] * 3"
proof -
  have a: "enters_loop initial_translator ''abc'' False"
    by (simp add: enters_loop_def)
  have b: "all_fail refusing_service False ''abc'' (requests initial_translator)
     (length [''k1'', ''k2''] * 3)"
    by (simp add: all_fail_def refusing_service_def)
  note r = translateText_attempts_bounded [where service = refusing_service
      and apiKeys = "[''k1'', ''k2'']" and input = "''abc''" and isTitle = False
      and st = initial_translator,
      THEN conjunct2, THEN conjunct2, THEN mp, OF conjI [OF a b]]
  show ?thesis
    by (intro conjI a b r [THEN conjunct1] r [THEN conjunct2])
qed

text \<open>Two keys and a service that refuses everything: six requests, and the text comes back.\<close>

lemma translateText_refused_example:
  "translateText refusing_service [''k1'', ''k2''] ''abc'' False initial_translator
   = (Text ''abc'',
      \<lparr> currentApiKeyIndex = 0, consecutiveErrors = 0, fullCycleCompleted = True,
        titleCache = [], requests = 6 \<rparr>)"
  by code_simp

section \<open>Resuming the translation\<close>

text \<open>
  \<open>parser.js\<close> ends every content with \<open>.trim()\<close>; for such a content, empty after
  trimming and empty are the same.
\<close>

lemma trimmed_blank_is_empty: "trim (trim s) = [] \<longleftrightarrow> trim s = []"
  by (simp add: trim_trim)

lemma translateText_content:
  "\<exists>c. fst (translateText service apiKeys input False st) = Text c"
  by (simp add: translateText_def Let_def split: prod.splits)

lemma translateText_title:
  "input \<notin> set object_prototype_keys \<Longrightarrow>
   \<exists>c. fst (translateText service apiKeys input True st) = Text c"
  by (auto simp: translateText_def Let_def js_get_def split: prod.splits option.splits)

lemma translate_pending_sources:
  assumes "translate_pending service apiKeys st todo = (news, st', e)"
  shows "map source news = take (length news) todo \<and>
         (if e = None then map source news = todo else length news < length todo)"
  using assms
proof (induction todo arbitrary: st news)
  case Nil
  then show ?case by simp
next
  case (Cons h todo)
  obtain tt st1 where 1: "translateText service apiKeys (src_title h) True st = (tt, st1)"
    by (cases "translateText service apiKeys (src_title h) True st")
  obtain tc st2 where 2: "translateText service apiKeys (src_content h) False st1 = (tc, st2)"
    by (cases "translateText service apiKeys (src_content h) False st1")
  from translateText_content [of service apiKeys "src_content h" st1] 2
  obtain c where tc: "tc = Text c" by auto
  show ?case
  proof (cases tt)
    case (Text t)
    obtain news' st'' e' where 3: "translate_pending service apiKeys st2 todo = (news', st'', e')"
      by (cases "translate_pending service apiKeys st2 todo")
    with Cons.prems 1 2 tc Text
    have n: "news = \<lparr> source = h, title_fa = trim t, content_fa = trim c \<rparr> # news'"
      and e: "e' = e" and s: "st'' = st'"
      by simp_all
    from Cons.IH [OF 3 [unfolded e s]] show ?thesis by (auto simp: n split: if_splits)
  next
    case NotText
    with Cons.prems 1 2 have "news = []" "e = Some TypeError" by simp_all
    then show ?thesis by simp
  qed
qed

lemma translate_pending_completes:
  assumes "translate_pending service apiKeys st todo = (news, st', e)"
    and "\<forall>h \<in> set todo. src_title h \<notin> set object_prototype_keys"
  shows "e = None"
  using assms
proof (induction todo arbitrary: st news)
  case Nil
  then show ?case by simp
next
  case (Cons h todo)
  obtain tt st1 where 1: "translateText service apiKeys (src_title h) True st = (tt, st1)"
    by (cases "translateText service apiKeys (src_title h) True st")
  obtain tc st2 where 2: "translateText service apiKeys (src_content h) False st1 = (tc, st2)"
    by (cases "translateText service apiKeys (src_content h) False st1")
  from translateText_content [of service apiKeys "src_content h" st1] 2
  obtain c where tc: "tc = Text c" by auto
  from Cons.prems(2) have "src_title h \<notin> set object_prototype_keys" by simp
  from translateText_title [OF this, of service apiKeys st] 1
  obtain t where tt: "tt = Text t" by auto
  obtain news' st'' e' where 3: "translate_pending service apiKeys st2 todo = (news', st'', e')"
    by (cases "translate_pending service apiKeys st2 todo")
  with Cons.prems(1) 1 2 tc tt have e: "e' = e" and s: "st'' = st'" by simp_all
  from Cons.prems(2) have "\<forall>h \<in> set todo. src_title h \<notin> set object_prototype_keys" by simp
  with 3 [unfolded e s] show ?case by (rule Cons.IH)
qed

lemma translate_loop_pending:
  assumes "thrown r = None"
    and "translate_pending service apiKeys (translator_state r) (pending ids hadiths)
           = (news, st', e)"
  shows "translate_loop service apiKeys ids r hadiths
         = \<lparr> translator_state = st',
             translatedHadiths = translatedHadiths r @ news,
             events = events r @ expected_events (translatedHadiths r) news
                      @ interrupted_at e (pending ids hadiths) (length news),
             thrown = e \<rparr>"
  using assms
proof (induction hadiths arbitrary: r news)
  case Nil
  then show ?case by (simp add: pending_def interrupted_at_def)
next
  case (Cons hadith rest)
  show ?case
  proof (cases "src_id hadith \<in> set ids \<or> trim (src_content hadith) = []")
    case True
    then have skip: "translate_loop service apiKeys ids r (hadith # rest)
               = translate_loop service apiKeys ids r rest" by auto
    from True have same: "pending ids (hadith # rest) = pending ids rest"
      by (auto simp: pending_def)
    from Cons.IH [OF Cons.prems(1) Cons.prems(2) [unfolded same]]
    show ?thesis by (simp only: skip same)
  next
    case False
    then have todo: "pending ids (hadith # rest) = hadith # pending ids rest"
      by (simp add: pending_def)
    obtain tt st1 where 1:
      "translateText service apiKeys (src_title hadith) True (translator_state r) = (tt, st1)"
      by (cases "translateText service apiKeys (src_title hadith) True (translator_state r)")
    obtain tc st2 where 2:
      "translateText service apiKeys (src_content hadith) False st1 = (tc, st2)"
      by (cases "translateText service apiKeys (src_content hadith) False st1")
    from translateText_content [of service apiKeys "src_content hadith" st1] 2
    obtain c where tc: "tc = Text c" by auto
    show ?thesis
    proof (cases tt)
      case (Text t)
      define n where "n = \<lparr> source = hadith, title_fa = trim t, content_fa = trim c \<rparr>"
      define r1 where "r1 = r \<lparr> translator_state := st2,
          translatedHadiths := translatedHadiths r @ [n],
          events := events r @
            [Translating (src_id hadith), WriteFile (translatedHadiths r @ [n]),
             Saved (src_id hadith)] \<rparr>"
      have step: "translate_loop service apiKeys ids r (hadith # rest)
                  = translate_loop service apiKeys ids r1 rest"
        using False 1 2 tc Text by (simp add: Let_def n_def r1_def)
      obtain news' st'' e' where 3:
        "translate_pending service apiKeys st2 (pending ids rest) = (news', st'', e')"
        by (cases "translate_pending service apiKeys st2 (pending ids rest)")
      with Cons.prems(2) 1 2 tc Text
      have n: "news = n # news'" and e: "e' = e" and s: "st'' = st'"
        by (simp_all add: todo n_def)
      have t1: "thrown r1 = None" using Cons.prems(1) by (simp add: r1_def)
      have s1: "translator_state r1 = st2" by (simp add: r1_def)
      have sn: "source n = hadith" by (simp add: n_def)
      have th1: "translatedHadiths r1 = translatedHadiths r @ [n]" by (simp add: r1_def)
      have ev1: "events r1 = events r @
            [Translating (src_id hadith), WriteFile (translatedHadiths r @ [n]),
             Saved (src_id hadith)]" by (simp add: r1_def)
      from 3 have "translate_pending service apiKeys (translator_state r1) (pending ids rest)
           = (news', st', e)" by (simp add: s1 e s)
      from Cons.IH [OF t1 this]
      show ?thesis
        unfolding step
        by (simp add: th1 ev1 n todo sn interrupted_at_def split: option.splits)
    next
      case NotText
      have step: "translate_loop service apiKeys ids r (hadith # rest)
                  = r \<lparr> translator_state := st2,
                        events := events r @ [Translating (src_id hadith)],
                        thrown := Some TypeError \<rparr>"
        using False 1 2 NotText by simp
      from Cons.prems(2) 1 2 NotText
      have "news = []" "st' = st2" "e = Some TypeError" by (simp_all add: todo)
      then show ?thesis
        unfolding step by (simp add: todo interrupted_at_def)
    qed
  qed
qed

text \<open>
  C8. Started on a partial output file, the driver skips the records whose identity is in
  the file and those whose content is empty after trimming, and submits the others, and
  only them, for translation, in order: the run ends in the state of the translator that
  these submissions leave, and its new records carry their answers. Each new record is
  written, with all before it, as soon as it is translated and before the next one is
  looked at. The run goes through all of them unless a title names a member of
  \<open>Object.prototype\<close>.
\<close>

theorem translation_resumes_from_partial_file:
  assumes "translate_pending service apiKeys initial_translator
             (pending (map (src_id \<circ> source) loaded) hadiths) = (news, st', e)"
  shows "translate_main service apiKeys True (Existing loaded) hadiths
         = \<lparr> translator_state = st',
             translatedHadiths = loaded @ news,
             events = expected_events loaded news
                      @ interrupted_at e (pending (map (src_id \<circ> source) loaded) hadiths)
                          (length news),
             thrown = e \<rparr> \<and>
         map source news
           = take (length news) (pending (map (src_id \<circ> source) loaded) hadiths) \<and>
         (if e = None
          then map source news = pending (map (src_id \<circ> source) loaded) hadiths
          else length news < length (pending (map (src_id \<circ> source) loaded) hadiths)) \<and>
         ((\<forall>h \<in> set hadiths. src_title h \<notin> set object_prototype_keys) \<longrightarrow> e = None)"
proof -
  let ?start = "\<lparr> translator_state = initial_translator, translatedHadiths = loaded,
       events = [], thrown = None \<rparr>"
  let ?ids = "map (src_id \<circ> source) loaded"
  have main: "translate_main service apiKeys True (Existing loaded) hadiths
        = translate_loop service apiKeys ?ids ?start hadiths"
    by (simp add: translate_main_def Let_def)
  have "thrown ?start = None" by simp
  moreover from assms
  have "translate_pending service apiKeys (translator_state ?start) (pending ?ids hadiths)
        = (news, st', e)" by simp
  ultimately have 1: "translate_loop service apiKeys ?ids ?start hadiths
     = \<lparr> translator_state = st',
         translatedHadiths = translatedHadiths ?start @ news,
         events = events ?start @ expected_events (translatedHadiths ?start) news
                  @ interrupted_at e (pending ?ids hadiths) (length news),
         thrown = e \<rparr>"
    by (rule translate_loop_pending)
  have 4: "e = None" if "\<forall>h \<in> set hadiths. src_title h \<notin> set object_prototype_keys"
  proof -
    from that have "\<forall>h \<in> set (pending ?ids hadiths). src_title h \<notin> set object_prototype_keys"
      by (simp add: pending_def)
    with assms show ?thesis by (rule translate_pending_completes)
  qed
  note 2 = translate_pending_sources [OF assms]
  show ?thesis
  proof (intro conjI impI)
    from 1 show "translate_main service apiKeys True (Existing loaded) hadiths
         = \<lparr> translator_state = st',
             translatedHadiths = loaded @ news,
             events = expected_events loaded news
                      @ interrupted_at e (pending ?ids hadiths) (length news),
             thrown = e \<rparr>"
      unfolding main by simp
    from 2 show "map source news = take (length news) (pending ?ids hadiths)" ..
    from 2 show "if e = None then map source news = pending ?ids hadiths
          else length news < length (pending ?ids hadiths)" ..
    assume "\<forall>h \<in> set hadiths. src_title h \<notin> set object_prototype_keys"
    then show "e = None" by (rule 4)
  qed
qed

theorem translation_resumes_witness:
  "translate_pending example_service [''k1'', ''k2''] initial_translator
     (pending (map (src_id \<circ> source) example_loaded) example_hadiths)
   = ([\<lparr> source = example_source ''3'' ''c3'', title_fa = ''fa t'', content_fa = ''fa c3'' \<rparr>,
       \<lparr> source = example_source ''4'' ''c4'', title_fa = ''fa t'', content_fa = ''fa c4'' \<rparr>],
      \<lparr> currentApiKeyIndex = 0, consecutiveErrors = 0, fullCycleCompleted = True,
        titleCache = [(''t'', ''fa t'')], requests = 7 \<rparr>,
      None) \<and>
   translate_main example_service [''k1'', ''k2''] True (Existing example_loaded) example_hadiths
   = \<lparr> translator_state =
         \<lparr> currentApiKeyIndex = 0, consecutiveErrors = 0, fullCycleCompleted = True,
           titleCache = [(''t'', ''fa t'')], requests = 7 \<rparr>,
       translatedHadiths =
         example_loaded @
         [\<lparr> source = example_source ''3'' ''c3'', title_fa = ''fa t'', content_fa = ''fa c3'' \<rparr>,
          \<lparr> source = example_source ''4'' ''c4'', title_fa = ''fa t'', content_fa = ''fa c4'' \<rparr>],
       events =
         expected_events example_loaded
           [\<lparr> source = example_source ''3'' ''c3'', title_fa = ''fa t'', content_fa = ''fa c3'' \<rparr>,
            \<lparr> source = example_source ''4'' ''c4'', title_fa = ''fa t'', content_fa = ''fa c4'' \<rparr>]
         @ interrupted_at None
             (pending (map (src_id \<circ> source) example_loaded) example_hadiths)
             (length
               [\<lparr> source = example_source ''3'' ''c3'', title_fa = ''fa t'',
                  content_fa = ''fa c3'' \<rparr>,
                \<lparr> source = example_source ''4'' ''c4'', title_fa = ''fa t'',
                  content_fa = ''fa c4'' \<rparr>]),
       thrown = None \<rparr>"
proof -
  have h: "translate_pending example_service [''k1'', ''k2''] initial_translator
     (pending (map (src_id \<circ> source) example_loaded) example_hadiths)
   = ([\<lparr> source = example_source ''3'' ''c3'', title_fa = ''fa t'', content_fa = ''fa c3'' \<rparr>,
       \<lparr> source = example_source ''4'' ''c4'', title_fa = ''fa t'', content_fa = ''fa c4'' \<rparr>],
      \<lparr> currentApiKeyIndex = 0, consecutiveErrors = 0, fullCycleCompleted = True,
        titleCache = [(''t'', ''fa t'')], requests = 7 \<rparr>,
      None)"
    by code_simp
  from h translation_resumes_from_partial_file [OF h, THEN conjunct1]
  show ?thesis by (rule conjI)
qed

text \<open>
  A run on a file that holds record 1: record 2 has no content, records 3 and 4 are
  translated and written one at a time.
\<close>

lemma translate_main_example:
  "translate_main example_service [''k1'', ''k2''] True (Existing example_loaded) example_hadiths
   = \<lparr> translator_state =
         \<lparr> currentApiKeyIndex = 0, consecutiveErrors = 0, fullCycleCompleted = True,
           titleCache = [(''t'', ''fa t'')], requests = 7 \<rparr>,
       translatedHadiths =
         example_loaded @
         [\<lparr> source = example_source ''3'' ''c3'', title_fa = ''fa t'', content_fa = ''fa c3'' \<rparr>,
          \<lparr> source = example_source ''4'' ''c4'', title_fa = ''fa t'', content_fa = ''fa c4'' \<rparr>],
       events =
         [Translating ''3'',
          WriteFile (example_loaded @
            [\<lparr> source = example_source ''3'' ''c3'', title_fa = ''fa t'',
               content_fa = ''fa c3'' \<rparr>]),
          Saved ''3'',
          Translating ''4'',
          WriteFile (example_loaded @
            [\<lparr> source = example_source ''3'' ''c3'', title_fa = ''fa t'',
               content_fa = ''fa c3'' \<rparr>,
             \<lparr> source = example_source ''4'' ''c4'', title_fa = ''fa t'',
               content_fa = ''fa c4'' \<rparr>]),
          Saved ''4''],
       thrown = None \<rparr>"
  by code_simp

section \<open>The title of the fallback records\<close>

lemma primary_parags_title:
  "for_each (primary_parag f v s p) st ps = Inr st' \<Longrightarrow>
   currentTitle st' = title_after (currentTitle st) ps"
proof (induction ps arbitrary: st)
  case Nil
  then show ?case by (simp add: title_after_def)
next
  case (Cons parag ps)
  from Cons.prems obtain s1 where 1: "primary_parag f v s p st parag = Inr s1"
    and 2: "for_each (primary_parag f v s p) s1 ps = Inr st'"
    by (auto split: sum.splits)
  from 1 have "currentTitle s1 =
      (if trim (heading_text parag) \<noteq> [] then trim (heading_text parag) else currentTitle st)"
    by (auto simp: primary_parag_def Let_def split: sum.splits)
  with Cons.IH [OF 2] show ?case by (simp add: title_after_def)
qed

lemma primary_page_title:
  "primary_page fs st p = Inr st' \<Longrightarrow>
   currentTitle st' = title_after (currentTitle st) (parags_read fs p)"
  by (auto simp: primary_page_def parags_read_def title_after_def primary_parags_title
      split: page_json.splits option.splits)

lemma primary_pages_title:
  "for_each (primary_page fs) st paths = Inr st' \<Longrightarrow>
   currentTitle st' = foldl (\<lambda>t p. title_after t (parags_read fs p)) (currentTitle st) paths"
proof (induction paths arbitrary: st)
  case Nil
  then show ?case by simp
next
  case (Cons p paths)
  from Cons.prems obtain s1 where 1: "primary_page fs st p = Inr s1"
    and 2: "for_each (primary_page fs) s1 paths = Inr st'"
    by (auto split: sum.splits)
  from Cons.IH [OF 2] primary_page_title [OF 1] show ?case by simp
qed

lemma fallback_parag_titles:
  assumes "\<forall>h \<in> snd ` set byId. title h = t"
  shows "\<forall>h \<in> snd ` set (fallback_parag v s p t byId parag). title h = t"
proof
  fix h assume "h \<in> snd ` set (fallback_parag v s p t byId parag)"
  then obtain k where k: "(k, h) \<in> set (fallback_parag v s p t byId parag)" by auto
  show "title h = t"
  proof (cases "\<exists>g c. p_match parag = Some (g, c) \<and> js_get byId (fallback_id parag) = Undefined")
    case True
    then obtain g c where "p_match parag = Some (g, c)"
      and "js_get byId (fallback_id parag) = Undefined" by blast
    with k have "(k, h) \<in> set (AList.update (fallback_id parag)
        \<lparr> vol = v, sec = s, pages = [p], id' = fallback_id parag, title = t,
          ghael = trim g, sanad = [], parts = [trim c] \<rparr> byId)"
      by (simp add: fallback_parag_def Let_def)
    then have "(k, h) \<in> set byId \<or> title h = t"
      by (auto dest: set_update_cases)
    with assms show ?thesis by force
  next
    case False
    then have "fallback_parag v s p t byId parag = byId"
      by (auto simp: fallback_parag_def Let_def split: option.splits js_prop.splits)
    with k assms show ?thesis by force
  qed
qed

lemma foldl_fallback_parag_titles:
  "\<forall>h \<in> snd ` set byId. title h = t \<Longrightarrow>
   \<forall>h \<in> snd ` set (foldl (fallback_parag v s p t) byId ps). title h = t"
proof (induction ps arbitrary: byId)
  case Nil
  then show ?case by simp
next
  case (Cons parag ps)
  from fallback_parag_titles [OF Cons.prems] have
    "\<forall>h \<in> snd ` set (fallback_parag v s p t byId parag). title h = t" .
  from Cons.IH [OF this] show ?case by simp
qed

lemma fallback_page_ready:
  assumes "fallback_ready t st" and "fallback_page fs st filePath = Inr st'"
  shows "fallback_ready t st'"
proof (cases "\<exists>ps v s p. fs filePath = ParagList ps \<and> path_match filePath = Some (v, s, p)")
  case True
  then obtain ps v s p where "fs filePath = ParagList ps" "path_match filePath = Some (v, s, p)"
    by blast
  with assms(2) have st': "st' = st \<lparr> hadithsById :=
      foldl (fallback_parag v s p (currentTitle st)) (hadithsById st) ps \<rparr>"
    by (simp add: fallback_page_def)
  from assms(1) have t: "currentTitle st = t" and all: "\<forall>h \<in> snd ` set (hadithsById st). title h = t"
    by (simp_all add: fallback_ready_def)
  from foldl_fallback_parag_titles [OF all, of v s p ps] t st'
  show ?thesis by (simp add: fallback_ready_def)
next
  case False
  with assms(2) have "st' = st"
    by (auto simp: fallback_page_def split: page_json.splits option.splits)
  with assms(1) show ?thesis by simp
qed

lemma title_after_default:
  "\<forall>parag \<in> set ps. trim (heading_text parag) = [] \<Longrightarrow> title_after t ps = t"
  unfolding title_after_def by (induction ps arbitrary: t) simp_all

lemma leftover_title_default:
  assumes "\<forall>p \<in> set paths. \<forall>parag \<in> set (parags_read fs p). trim (heading_text parag) = []"
  shows "leftover_title fs paths = ''Untitled''"
proof -
  have "foldl (\<lambda>t p. title_after t (parags_read fs p)) t paths = t" for t
    using assms by (induction paths arbitrary: t) (simp_all add: title_after_default)
  then show ?thesis by (simp add: leftover_title_def)
qed

text \<open>
  C10. When the fallback extraction runs, every record it creates has as its title the
  heading left over at the end of the primary pass, which is the last heading of the
  traversal or \<open>Untitled\<close>; the fallback pass does not change that heading.
\<close>

theorem fallback_records_carry_leftover_title:
  assumes "primary fs (sortedPaths filePaths) = Inr st"
    and "hadithsById st = []"
    and "main fs filePaths = Inr st'"
  shows "currentTitle st = leftover_title fs (sortedPaths filePaths) \<and>
         currentTitle st' = currentTitle st \<and>
         list_all (\<lambda>(k, h). title h = currentTitle st) (hadithsById st')"
proof -
  from assms(1) have "currentTitle st = leftover_title fs (sortedPaths filePaths)"
    using primary_pages_title [of fs initial_state "sortedPaths filePaths" st]
    by (simp add: primary_def leftover_title_def initial_state_def)
  moreover
  from assms have run: "for_each (fallback_page fs) st (sortedPaths filePaths) = Inr st'"
    by (simp add: main_def Let_def fallback_def)
  have "fallback_ready (currentTitle st) st"
    using assms(2) by (simp add: fallback_ready_def)
  have "fallback_ready (currentTitle st) st'"
    using fallback_page_ready \<open>fallback_ready (currentTitle st) st\<close> run
    by (rule for_each_preserves [where P = "fallback_ready (currentTitle st)"])
  then have "currentTitle st' = currentTitle st"
    and "\<forall>h \<in> snd ` set (hadithsById st'). title h = currentTitle st"
    by (simp_all add: fallback_ready_def)
  then have "list_all (\<lambda>(k, h). title h = currentTitle st) (hadithsById st')"
    unfolding list_all_iff by force
  ultimately show ?thesis using \<open>currentTitle st' = currentTitle st\<close> by simp
qed

theorem fallback_records_carry_leftover_title_witness:
  "primary heading_files (sortedPaths
     [''/b/volume_1/section_1/page_7.json'', ''/b/volume_1/section_1/page_3.json''])
   = Inr \<lparr> hadithsById = [], currentTitle = ''T2'' \<rparr> \<and>
   hadithsById \<lparr> hadithsById = [], currentTitle = ''T2'' \<rparr> = [] \<and>
   main heading_files
     [''/b/volume_1/section_1/page_7.json'', ''/b/volume_1/section_1/page_3.json'']
   = Inr \<lparr> hadithsById = [(''fallback_1'', fallback_hadith)], currentTitle = ''T2'' \<rparr> \<and>
   currentTitle \<lparr> hadithsById = [], currentTitle = ''T2'' \<rparr>
   = leftover_title heading_files (sortedPaths
       [''/b/volume_1/section_1/page_7.json'', ''/b/volume_1/section_1/page_3.json'']) \<and>
   list_all (\<lambda>(k, h). title h = currentTitle \<lparr> hadithsById = [], currentTitle = ''T2'' \<rparr>)
     (hadithsById \<lparr> hadithsById = [(''fallback_1'', fallback_hadith)],
                    currentTitle = ''T2'' \<rparr>)"
proof -
  have p: "primary heading_files (sortedPaths
     [''/b/volume_1/section_1/page_7.json'', ''/b/volume_1/section_1/page_3.json''])
   = Inr \<lparr> hadithsById = [], currentTitle = ''T2'' \<rparr>"
    by code_simp
  have e: "hadithsById \<lparr> hadithsById = [], currentTitle = ''T2'' \<rparr> = []"
    by simp
  have m: "main heading_files
     [''/b/volume_1/section_1/page_7.json'', ''/b/volume_1/section_1/page_3.json'']
   = Inr \<lparr> hadithsById = [(''fallback_1'', fallback_hadith)], currentTitle = ''T2'' \<rparr>"
    by code_simp
  note r = fallback_records_carry_leftover_title [OF p e m]
  show ?thesis
    by (intro conjI p e m r [THEN conjunct1] r [THEN conjunct2, THEN conjunct2])
qed

end
